theory Spec2Isabelle
  imports Main "HOL-Library.AList"
begin

section \<open>Values, exceptions and the object store\<close>

text \<open>
  The module is Python 2 (\<^verbatim>\<open>iteritems\<close>, the three-argument \<^verbatim>\<open>raise\<close>).
  A parsed YAML document is a nested structure of mappings, sequences and scalars, or
  \<^verbatim>\<open>None\<close> for an empty file. Mapping keys are taken to be strings (the keys
  that \<^verbatim>\<open>nested.split('.')\<close>, the environment name and attribute access can
  name). A mapping is an association list: its order stands for the iteration order of the
  dictionary, and a Python dictionary binds every key once.
\<close>

datatype yval =
    YNone
  | YBool bool
  | YInt int
  | YStr string
  | YList "yval list"
  | YDict "(string \<times> yval) list"

type_synonym addr = nat

text \<open>
  What a node keeps under a key: a plain value, or a reference to another
  \<^verbatim>\<open>ConfigStore\<close> object.
\<close>

datatype attr = Leaf yval | Store addr

text \<open>
  The exceptions of the module (lines 4 to 17), each with its message (\<open>Error\<close> with
  its argument tuple), and the built-in ones that the module's statements can raise.
\<close>

datatype exn =
    Error "string list"
  | MissingEnvironment string
  | UndefinedKeyError string
  | LockedError string
  | ConfigFileError string
  | AttributeError string
  | TypeError
  | KeyError string
  | NameError string
  | IOError string

record ConfigTree =
  locked :: bool

text \<open>
  The fields \<^verbatim>\<open>_config_tree\<close>, \<^verbatim>\<open>_name\<close>, \<^verbatim>\<open>_path\<close> and
  \<^verbatim>\<open>_attributes\<close> of a \<^verbatim>\<open>ConfigStore\<close>; \<open>extras\<close> are the other
  entries of the instance dictionary, which only \<^verbatim>\<open>object.__setattr__\<close> writes.
\<close>

record ConfigStore =
  config_tree :: addr
  name :: string
  path :: "string list"
  attributes :: "(string \<times> attr) list"
  extras :: "(string \<times> attr) list"

text \<open>
  Objects live in a store and are referred to by address, as Python refers to them by
  identity: the address of an object is its index, a new object goes to the end, and
  nothing is ever freed.
\<close>

record heap =
  trees :: "ConfigTree list"
  stores :: "ConfigStore list"

definition ConfigTree_init :: "heap \<Rightarrow> addr \<times> heap" where
  "ConfigTree_init h = (length (trees h), h\<lparr>trees := trees h @ [\<lparr>locked = False\<rparr>]\<rparr>)"

definition ConfigStore_init ::
  "heap \<Rightarrow> addr option \<Rightarrow> string \<Rightarrow> string list \<Rightarrow> addr \<times> heap" where
  "ConfigStore_init h config_tree_arg name_arg path_arg =
     (let (t, h1) = (case config_tree_arg of None \<Rightarrow> ConfigTree_init h | Some t \<Rightarrow> (t, h))
      in (length (stores h1),
          h1\<lparr>stores := stores h1 @
            [\<lparr>config_tree = t, name = name_arg, path = path_arg,
              attributes = [], extras = []\<rparr>]\<rparr>))"

text \<open>The property \<^verbatim>\<open>locked\<close> (lines 59 to 65): getter and setter.\<close>

definition get_locked :: "heap \<Rightarrow> addr \<Rightarrow> bool" where
  "get_locked h self = locked (trees h ! config_tree (stores h ! self))"

definition set_locked :: "heap \<Rightarrow> addr \<Rightarrow> bool \<Rightarrow> heap" where
  "set_locked h self v =
     h\<lparr>trees := (trees h)[config_tree (stores h ! self) := \<lparr>locked = v\<rparr>]\<rparr>"

text \<open>\<^verbatim>\<open>self._attributes[key] = value\<close>\<close>

definition set_attribute :: "heap \<Rightarrow> addr \<Rightarrow> string \<Rightarrow> attr \<Rightarrow> heap" where
  "set_attribute h self key v =
     h\<lparr>stores := (stores h)[self := (stores h ! self)
        \<lparr>attributes := AList.update key v (attributes (stores h ! self))\<rparr>]\<rparr>"

section \<open>ConfigStore: navigation and guarded mutation\<close>

text \<open>\<^verbatim>\<open>__getitem__\<close> (lines 32 to 39).\<close>

definition getitem :: "heap \<Rightarrow> addr \<Rightarrow> string \<Rightarrow> (exn + attr) \<times> heap" where
  "getitem h self key =
     (case map_of (attributes (stores h ! self)) key of
        Some v \<Rightarrow> (Inr v, h)
      | None \<Rightarrow>
          if get_locked h self
          then (Inl (UndefinedKeyError
                  (''Configuration key not found: '' @ name (stores h ! self) @ ''.'' @ key)), h)
          else
            (let (child, h1) =
                   ConfigStore_init h (Some (config_tree (stores h ! self)))
                     (name (stores h ! self) @ ''.'' @ key) (path (stores h ! self) @ [key]);
                 h2 = set_attribute h1 self key (Store child)
             in (case map_of (attributes (stores h2 ! self)) key of
                   Some v \<Rightarrow> (Inr v, h2)
                 | None \<Rightarrow> (Inl (KeyError key), h2))))"

text \<open>\<^verbatim>\<open>__setitem__\<close> (lines 41 to 44).\<close>

definition setitem :: "heap \<Rightarrow> addr \<Rightarrow> string \<Rightarrow> attr \<Rightarrow> (exn + unit) \<times> heap" where
  "setitem h self key v =
     (if get_locked h self
      then (Inl (LockedError
              (''Cannot set key '' @ key @ '' for locked '' @ name (stores h ! self))), h)
      else (Inr (), set_attribute h self key v))"

text \<open>\<^verbatim>\<open>update_dict\<close> (lines 70 to 75). \<^verbatim>\<open>d.iteritems()\<close> exists on a
  dictionary only, and \<^verbatim>\<open>self[key].update_dict\<close> exists only when \<^verbatim>\<open>self[key]\<close>
  is a node.\<close>

fun is_dict :: "yval \<Rightarrow> bool" where
  "is_dict (YDict kvs) = True"
| "is_dict v = False"

fun update_dict :: "heap \<Rightarrow> addr \<Rightarrow> yval \<Rightarrow> (exn + unit) \<times> heap"
  and update_items :: "heap \<Rightarrow> addr \<Rightarrow> (string \<times> yval) list \<Rightarrow> (exn + unit) \<times> heap"
where
  "update_dict h self (YDict kvs) = update_items h self kvs"
| "update_dict h self YNone = (Inl (AttributeError ''iteritems''), h)"
| "update_dict h self (YBool b) = (Inl (AttributeError ''iteritems''), h)"
| "update_dict h self (YInt i) = (Inl (AttributeError ''iteritems''), h)"
| "update_dict h self (YStr s) = (Inl (AttributeError ''iteritems''), h)"
| "update_dict h self (YList xs) = (Inl (AttributeError ''iteritems''), h)"
| "update_items h self [] = (Inr (), h)"
| "update_items h self ((key, v) # kvs) =
     (if is_dict v then
        (case getitem h self key of
           (Inl e, h1) \<Rightarrow> (Inl e, h1)
         | (Inr (Leaf x), h1) \<Rightarrow> (Inl (AttributeError ''update_dict''), h1)
         | (Inr (Store child), h1) \<Rightarrow>
             (case update_dict h1 child v of
                (Inl e, h2) \<Rightarrow> (Inl e, h2)
              | (Inr u, h2) \<Rightarrow> update_items h2 self kvs))
      else
        (case setitem h self key (Leaf v) of
           (Inl e, h1) \<Rightarrow> (Inl e, h1)
         | (Inr u, h1) \<Rightarrow> update_items h1 self kvs))"

text \<open>
  \<^verbatim>\<open>to_dict\<close> (lines 91 to 97). The recursion follows the references of the store and
  need not end (a node can be stored below itself), so it is bounded by fuel: \<open>None\<close> is
  "no result within this recursion depth".
\<close>

fun to_dict_items ::
  "(addr \<Rightarrow> (string \<times> yval) list option) \<Rightarrow> (string \<times> attr) list \<Rightarrow>
   (string \<times> yval) list \<Rightarrow> (string \<times> yval) list option" where
  "to_dict_items rec [] output = Some output"
| "to_dict_items rec ((key, Leaf v) # kvs) output =
     to_dict_items rec kvs (AList.update key v output)"
| "to_dict_items rec ((key, Store child) # kvs) output =
     (case rec child of
        None \<Rightarrow> None
      | Some d \<Rightarrow> to_dict_items rec kvs (AList.update key (YDict d) output))"

primrec to_dict :: "nat \<Rightarrow> heap \<Rightarrow> addr \<Rightarrow> (string \<times> yval) list option" where
  "to_dict 0 h self = None"
| "to_dict (Suc fuel) h self =
     to_dict_items (to_dict fuel h) (attributes (stores h ! self)) []"

section \<open>Attribute access\<close>

definition startswith :: "string \<Rightarrow> string \<Rightarrow> bool" where
  "startswith s pre = (take (length pre) s = pre)"

text \<open>
  The names that lookup through the class \<^verbatim>\<open>ConfigStore\<close> and its base
  \<^verbatim>\<open>object\<close> finds, and the names that \<^verbatim>\<open>hasattr(ConfigStore, key)\<close> finds in
  addition through the metaclass \<^verbatim>\<open>type\<close>. The public ones are \<^verbatim>\<open>locked\<close>,
  \<^verbatim>\<open>clear\<close>, \<^verbatim>\<open>update_dict\<close>, \<^verbatim>\<open>to_dict\<close>, \<^verbatim>\<open>iteritems\<close>,
  \<^verbatim>\<open>items\<close> and \<^verbatim>\<open>mro\<close>; every other one starts with an underscore, which the
  module tests first, so that only the public names decide.
\<close>

definition class_namespace :: "string list" where
  "class_namespace =
     [''__init__'', ''__getitem__'', ''__setitem__'', ''__getattr__'', ''__setattr__'',
      ''locked'', ''clear'', ''update_dict'', ''__str__'', ''__repr__'', ''to_dict'',
      ''__iter__'', ''iteritems'', ''items'',
      ''__module__'', ''__dict__'', ''__weakref__'', ''__doc__'',
      ''__class__'', ''__delattr__'', ''__format__'', ''__getattribute__'', ''__hash__'',
      ''__new__'', ''__reduce__'', ''__reduce_ex__'', ''__sizeof__'', ''__subclasshook__'']"

definition type_namespace :: "string list" where
  "type_namespace =
     [''mro'', ''__name__'', ''__bases__'', ''__base__'', ''__mro__'', ''__subclasses__'',
      ''__call__'', ''__instancecheck__'', ''__subclasscheck__'', ''__basicsize__'',
      ''__itemsize__'', ''__flags__'', ''__dictoffset__'', ''__weakrefoffset__'',
      ''__eq__'', ''__ne__'', ''__lt__'', ''__le__'', ''__gt__'', ''__ge__'']"

definition hasattr_ConfigStore :: "string \<Rightarrow> bool" where
  "hasattr_ConfigStore key = (key \<in> set class_namespace \<or> key \<in> set type_namespace)"

definition instance_fields :: "string list" where
  "instance_fields = [''_config_tree'', ''_name'', ''_path'', ''_attributes'']"

fun truthy :: "yval \<Rightarrow> bool" where
  "truthy YNone = False"
| "truthy (YBool b) = b"
| "truthy (YInt i) = (i \<noteq> 0)"
| "truthy (YStr s) = (s \<noteq> [])"
| "truthy (YList xs) = (xs \<noteq> [])"
| "truthy (YDict kvs) = (kvs \<noteq> [])"

fun truthy_attr :: "attr \<Rightarrow> bool" where
  "truthy_attr (Leaf v) = truthy v"
| "truthy_attr (Store a) = True"

text \<open>
  \<^verbatim>\<open>object.__setattr__\<close>, which \<^verbatim>\<open>super(ConfigStore, self).__setattr__\<close> is:
  the property \<^verbatim>\<open>locked\<close> of the class runs its setter (the flag is kept as the truth
  value that \<^verbatim>\<open>if self.locked\<close> tests); any other name is bound in the instance
  dictionary. The four fields bound by \<^verbatim>\<open>__init__\<close> are written at construction
  only: the module never rebinds them, and a later rebinding is not followed into them.
\<close>

definition set_extra :: "heap \<Rightarrow> addr \<Rightarrow> string \<Rightarrow> attr \<Rightarrow> heap" where
  "set_extra h self key v =
     h\<lparr>stores := (stores h)[self := (stores h ! self)
        \<lparr>extras := AList.update key v (extras (stores h ! self))\<rparr>]\<rparr>"

definition object_setattr :: "heap \<Rightarrow> addr \<Rightarrow> string \<Rightarrow> attr \<Rightarrow> (exn + unit) \<times> heap" where
  "object_setattr h self key v =
     (if key = ''locked'' then (Inr (), set_locked h self (truthy_attr v))
      else (Inr (), set_extra h self key v))"

text \<open>\<^verbatim>\<open>__getattr__\<close> (lines 46 to 50): \<^verbatim>\<open>object\<close> has no
  \<^verbatim>\<open>__getattr__\<close>, so the call through \<^verbatim>\<open>super\<close> raises
  \<^verbatim>\<open>AttributeError\<close>.\<close>

definition getattr :: "heap \<Rightarrow> addr \<Rightarrow> string \<Rightarrow> (exn + attr) \<times> heap" where
  "getattr h self key =
     (if startswith key ''_'' \<or> hasattr_ConfigStore key
      then (Inl (AttributeError ''__getattr__''), h)
      else getitem h self key)"

text \<open>\<^verbatim>\<open>__setattr__\<close> (lines 52 to 57): every assignment \<^verbatim>\<open>node.key = value\<close>
  calls it.\<close>

definition setattr :: "heap \<Rightarrow> addr \<Rightarrow> string \<Rightarrow> attr \<Rightarrow> (exn + unit) \<times> heap" where
  "setattr h self key v =
     (if startswith key ''_'' \<or> hasattr_ConfigStore key
      then object_setattr h self key v
      else setitem h self key v)"

text \<open>
  Reading \<^verbatim>\<open>node.key\<close>: the property \<^verbatim>\<open>locked\<close> of the class first, then the
  instance dictionary, then the rest of the class, and \<^verbatim>\<open>__getattr__\<close> only when
  all of these fail. \<open>Member key\<close> is the field or class member of that name (a bound
  method, a field of \<^verbatim>\<open>__init__\<close>), whose value no statement here needs.
\<close>

datatype pyobj = Obj attr | Member string

definition getattribute :: "heap \<Rightarrow> addr \<Rightarrow> string \<Rightarrow> (exn + pyobj) \<times> heap" where
  "getattribute h self key =
     (if key = ''locked'' then (Inr (Obj (Leaf (YBool (get_locked h self)))), h)
      else if key \<in> set instance_fields then (Inr (Member key), h)
      else
        (case map_of (extras (stores h ! self)) key of
           Some v \<Rightarrow> (Inr (Obj v), h)
         | None \<Rightarrow>
             if key \<in> set class_namespace then (Inr (Member key), h)
             else
               (case getattr h self key of
                  (Inl e, h1) \<Rightarrow> (Inl e, h1)
                | (Inr v, h1) \<Rightarrow> (Inr (Obj v), h1))))"

text \<open>
  \<^verbatim>\<open>clear\<close> (lines 67 and 68) reads the attribute \<^verbatim>\<open>attributes\<close> of the node, not
  its field \<^verbatim>\<open>_attributes\<close>, and calls \<^verbatim>\<open>clear()\<close> on what it gets: on a node
  that is this method again, on a dictionary it empties the dictionary in place, and no
  other value has a method \<^verbatim>\<open>clear\<close> in Python 2. The recursion is bounded by fuel.
\<close>

definition clear_in_place :: "heap \<Rightarrow> addr \<Rightarrow> string \<Rightarrow> heap" where
  "clear_in_place h self key =
     (case map_of (extras (stores h ! self)) key of
        Some v \<Rightarrow> set_extra h self key (Leaf (YDict []))
      | None \<Rightarrow> set_attribute h self key (Leaf (YDict [])))"

fun clear :: "nat \<Rightarrow> heap \<Rightarrow> addr \<Rightarrow> ((exn + unit) \<times> heap) option" where
  "clear 0 h self = None"
| "clear (Suc fuel) h self =
     (case getattribute h self ''attributes'' of
        (Inl e, h1) \<Rightarrow> Some (Inl e, h1)
      | (Inr (Obj (Store child)), h1) \<Rightarrow> clear fuel h1 child
      | (Inr (Obj (Leaf (YDict kvs))), h1) \<Rightarrow>
          Some (Inr (), clear_in_place h1 self ''attributes'')
      | (Inr (Obj (Leaf v)), h1) \<Rightarrow> Some (Inl (AttributeError ''clear''), h1)
      | (Inr (Member m), h1) \<Rightarrow> Some (Inl (AttributeError ''clear''), h1))"

section \<open>Configuration: directives and their application\<close>

record directive =
  config :: yval
  filepath :: "string option"
  raw :: bool
  optional :: bool
  nested :: "string option"

record Configuration =
  directives :: "directive list"
  env :: string
  configatron :: addr

text \<open>The file system: the contents of the files that exist.\<close>

type_synonym filesystem = "string \<Rightarrow> string option"

definition is_space :: "char \<Rightarrow> bool" where
  "is_space c = (c \<in> set [CHR '' '', CHR 0x09, CHR 0x0A, CHR 0x0B, CHR 0x0C, CHR 0x0D])"

definition strip :: "string \<Rightarrow> string" where
  "strip s = rev (dropWhile is_space (rev (dropWhile is_space s)))"

definition discover_env :: "filesystem \<Rightarrow> string" where
  "discover_env fs =
     (case fs ''/etc/flags/env'' of Some contents \<Rightarrow> strip contents | None \<Rightarrow> ''local'')"

text \<open>\<^verbatim>\<open>Configuration.__init__\<close> (lines 110 to 114). The assignment to
  \<^verbatim>\<open>configatron.locked\<close>, here and in \<^verbatim>\<open>mixin_config\<close>, goes through \<open>setattr\<close>
  to the setter of the property, \<open>set_locked\<close>.\<close>

definition Configuration_init :: "filesystem \<Rightarrow> heap \<Rightarrow> Configuration \<times> heap" where
  "Configuration_init fs h =
     (let e = discover_env fs;
          (root, h1) = ConfigStore_init h None ''config'' []
      in (\<lparr>directives = [], env = e, configatron = root\<rparr>, set_locked h1 root True))"

text \<open>\<^verbatim>\<open>nested.split('.')\<close>\<close>

fun split :: "string \<Rightarrow> char \<Rightarrow> string list" where
  "split [] sep = [[]]"
| "split (c # cs) sep =
     (if c = sep then [] # split cs sep
      else (case split cs sep of [] \<Rightarrow> [[c]] | w # ws \<Rightarrow> (c # w) # ws))"

text \<open>\<^verbatim>\<open>key in config\<close> and \<^verbatim>\<open>config[key]\<close> for a string \<^verbatim>\<open>key\<close>, by the
  type of \<^verbatim>\<open>config\<close>.\<close>

fun is_substring :: "string \<Rightarrow> string \<Rightarrow> bool" where
  "is_substring k [] = (k = [])"
| "is_substring k (c # cs) = (startswith (c # cs) k \<or> is_substring k cs)"

fun contains :: "yval \<Rightarrow> string \<Rightarrow> exn + bool" where
  "contains (YDict kvs) k = Inr (map_of kvs k \<noteq> None)"
| "contains (YList xs) k = Inr (YStr k \<in> set xs)"
| "contains (YStr s) k = Inr (is_substring k s)"
| "contains YNone k = Inl TypeError"
| "contains (YBool b) k = Inl TypeError"
| "contains (YInt i) k = Inl TypeError"

fun subscript :: "yval \<Rightarrow> string \<Rightarrow> exn + yval" where
  "subscript (YDict kvs) k = (case map_of kvs k of Some v \<Rightarrow> Inr v | None \<Rightarrow> Inl (KeyError k))"
| "subscript v k = Inl TypeError"

text \<open>\<^verbatim>\<open>base_config[key]\<close> and \<^verbatim>\<open>base_config.update_dict(choice)\<close>, where
  \<^verbatim>\<open>base_config\<close> is whatever the navigation has reached.\<close>

fun getitem_attr :: "heap \<Rightarrow> attr \<Rightarrow> string \<Rightarrow> (exn + attr) \<times> heap" where
  "getitem_attr h (Store a) key = getitem h a key"
| "getitem_attr h (Leaf v) key =
     (case subscript v key of Inl e \<Rightarrow> (Inl e, h) | Inr x \<Rightarrow> (Inr (Leaf x), h))"

fun update_dict_attr :: "heap \<Rightarrow> attr \<Rightarrow> yval \<Rightarrow> (exn + unit) \<times> heap" where
  "update_dict_attr h (Store a) d = update_dict h a d"
| "update_dict_attr h (Leaf v) d = (Inl (AttributeError ''update_dict''), h)"

fun navigate :: "heap \<Rightarrow> attr \<Rightarrow> string list \<Rightarrow> (exn + attr) \<times> heap" where
  "navigate h base_config [] = (Inr base_config, h)"
| "navigate h base_config (key # keys) =
     (case getitem_attr h base_config key of
        (Inl e, h1) \<Rightarrow> (Inl e, h1)
      | (Inr b, h1) \<Rightarrow> navigate h1 b keys)"

definition filepath_truthy :: "string option \<Rightarrow> bool" where
  "filepath_truthy p = (case p of None \<Rightarrow> False | Some s \<Rightarrow> s \<noteq> [])"

definition filepath_str :: "string option \<Rightarrow> string" where
  "filepath_str p = (case p of None \<Rightarrow> ''None'' | Some s \<Rightarrow> s)"

definition missing_environment_message :: "string \<Rightarrow> string \<Rightarrow> string" where
  "missing_environment_message e p =
     ''Current environment '' @ e @ '' not defined in config file '' @ p @
     ''. (HINT: you should have a YAML key of '' @ e @
     ''. You may want to inherit a default via YAML'' @ [CHR 0x27] @
     ''s `<<` operator.)''"

text \<open>The test of line 169: does the directive lack the active environment?\<close>

definition environment_missing :: "Configuration \<Rightarrow> directive \<Rightarrow> exn + bool" where
  "environment_missing self d =
     (if \<not> raw d \<and> filepath_truthy (filepath d) \<and> config d \<noteq> YNone
      then (case contains (config d) (env self) of Inl e \<Rightarrow> Inl e | Inr b \<Rightarrow> Inr (\<not> b))
      else Inr False)"

text \<open>Lines 172 to 179: the mapping to merge.\<close>

definition select_choice :: "Configuration \<Rightarrow> directive \<Rightarrow> exn + yval" where
  "select_choice self d =
     (if raw d then Inr (config d)
      else if filepath_truthy (filepath d) \<and> truthy (config d)
        then subscript (config d) (env self)
      else if filepath_truthy (filepath d) then Inr (YDict [])
      else Inr (config d))"

text \<open>\<^verbatim>\<open>mixin_config\<close> (lines 161 to 188).\<close>

definition mixin_config :: "Configuration \<Rightarrow> heap \<Rightarrow> directive \<Rightarrow> (exn + unit) \<times> heap" where
  "mixin_config self h d =
     (if optional d \<and> config d = YNone then (Inr (), h)
      else
        (case environment_missing self d of
           Inl e \<Rightarrow> (Inl e, h)
         | Inr True \<Rightarrow>
             (Inl (MissingEnvironment
                (missing_environment_message (env self) (filepath_str (filepath d)))), h)
         | Inr False \<Rightarrow>
             (case select_choice self d of
                Inl e \<Rightarrow> (Inl e, h)
              | Inr choice \<Rightarrow>
                  (let h1 = set_locked h (configatron self) False
                   in (case navigate h1 (Store (configatron self))
                              (case nested d of None \<Rightarrow> [] | Some n \<Rightarrow> split n CHR ''.'') of
                         (Inl e, h2) \<Rightarrow> (Inl e, h2)
                       | (Inr base_config, h2) \<Rightarrow>
                           (case update_dict_attr h2 base_config choice of
                              (Inl e, h3) \<Rightarrow> (Inl e, h3)
                            | (Inr u, h3) \<Rightarrow>
                                (Inr (), set_locked h3 (configatron self) True)))))))"

text \<open>\<^verbatim>\<open>register_parsed\<close> (lines 145 to 154).\<close>

definition register_parsed ::
  "Configuration \<Rightarrow> heap \<Rightarrow> yval \<Rightarrow> string option \<Rightarrow> bool \<Rightarrow> bool \<Rightarrow> string option \<Rightarrow>
   (exn + unit) \<times> Configuration \<times> heap" where
  "register_parsed self h config_arg filepath_arg raw_arg optional_arg nested_arg =
     (let d = \<lparr>config = config_arg, filepath = filepath_arg, raw = raw_arg,
               optional = optional_arg, nested = nested_arg\<rparr>;
          self1 = self\<lparr>directives := directives self @ [d]\<rparr>
      in (case mixin_config self1 h d of (r, h1) \<Rightarrow> (r, self1, h1)))"

text \<open>
  The names bound in the module when \<^verbatim>\<open>register\<close> runs: its two imports and its own
  definitions. Line 140 looks up \<^verbatim>\<open>sys\<close>, which is neither among them nor a builtin.
\<close>

definition module_globals :: "string list" where
  "module_globals =
     [''os'', ''yaml'', ''Error'', ''MissingEnvironment'', ''UndefinedKeyError'',
      ''LockedError'', ''ConfigFileError'', ''ConfigTree'', ''ConfigStore'',
      ''Configuration'', ''_config'', ''register'', ''set_env'', ''configatron'']"

definition global_lookup :: "string \<Rightarrow> exn + unit" where
  "global_lookup n = (if n \<in> set module_globals then Inr () else Inl (NameError n))"

text \<open>
  \<^verbatim>\<open>register\<close> (lines 129 to 143). The YAML collaborator is a parameter: on the
  contents of a file it returns the document, or raises an exception, of which only the
  text \<^verbatim>\<open>str(e)\<close> is used.
\<close>

definition register ::
  "filesystem \<Rightarrow> (string \<Rightarrow> string + yval) \<Rightarrow> Configuration \<Rightarrow> heap \<Rightarrow>
   string \<Rightarrow> bool \<Rightarrow> bool \<Rightarrow> string option \<Rightarrow> (exn + unit) \<times> Configuration \<times> heap" where
  "register fs yaml_load self h filepath_arg raw_arg optional_arg nested_arg =
     (if \<not> startswith filepath_arg ''/''
      then (Inl (Error
              [''Register only accepts absolute paths, not {}. (This ensures that config is always correctly loaded rather than depending on your current directory. To avoid this error in the future, you may want to use a wrapper that expands paths based on a base directory.)'',
               filepath_arg]), self, h)
      else if optional_arg \<and> fs filepath_arg = None
      then register_parsed self h YNone (Some filepath_arg) raw_arg optional_arg nested_arg
      else
        (case fs filepath_arg of
           None \<Rightarrow> (Inl (IOError filepath_arg), self, h)
         | Some contents \<Rightarrow>
             (case yaml_load contents of
                Inl e \<Rightarrow>
                  (case global_lookup ''sys'' of
                     Inl ne \<Rightarrow> (Inl ne, self, h)
                   | Inr tb \<Rightarrow>
                       (Inl (ConfigFileError (e @ '' (while loading '' @ filepath_arg @ '')'')),
                        self, h))
              | Inr config_arg \<Rightarrow>
                  register_parsed self h config_arg (Some filepath_arg)
                    raw_arg optional_arg nested_arg)))"

text \<open>\<^verbatim>\<open>reapply_config\<close> (lines 156 to 159) and \<^verbatim>\<open>set_env\<close> (lines 116 to 118).\<close>

fun mixin_each :: "Configuration \<Rightarrow> heap \<Rightarrow> directive list \<Rightarrow> (exn + unit) \<times> heap" where
  "mixin_each self h [] = (Inr (), h)"
| "mixin_each self h (d # ds) =
     (case mixin_config self h d of
        (Inl e, h1) \<Rightarrow> (Inl e, h1)
      | (Inr u, h1) \<Rightarrow> mixin_each self h1 ds)"

definition reapply_config ::
  "nat \<Rightarrow> Configuration \<Rightarrow> heap \<Rightarrow> ((exn + unit) \<times> heap) option" where
  "reapply_config fuel self h =
     (case clear fuel h (configatron self) of
        None \<Rightarrow> None
      | Some (Inl e, h1) \<Rightarrow> Some (Inl e, h1)
      | Some (Inr u, h1) \<Rightarrow> Some (mixin_each self h1 (directives self)))"

definition set_env ::
  "nat \<Rightarrow> Configuration \<Rightarrow> heap \<Rightarrow> string \<Rightarrow> ((exn + unit) \<times> Configuration \<times> heap) option" where
  "set_env fuel self h env_arg =
     (let self1 = self\<lparr>env := env_arg\<rparr>
      in (case reapply_config fuel self1 h of
            None \<Rightarrow> None
          | Some (r, h1) \<Rightarrow> Some (r, self1, h1)))"

section \<open>Invariants of the store and well-formed mappings\<close>

text \<open>
  \<open>extends h h'\<close>: the store \<open>h'\<close> has the lock flags of \<open>h\<close>, at least its objects,
  and every node of \<open>h\<close> still belongs to the same tree.
\<close>

definition extends :: "heap \<Rightarrow> heap \<Rightarrow> bool" where
  "extends h h' =
     (trees h' = trees h \<and> length (stores h) \<le> length (stores h') \<and>
      (\<forall>a < length (stores h). config_tree (stores h' ! a) = config_tree (stores h ! a)))"

text \<open>The root node of a configuration and its tree are objects of the store.\<close>

definition valid_root :: "Configuration \<Rightarrow> heap \<Rightarrow> bool" where
  "valid_root self h =
     (configatron self < length (stores h) \<and>
      config_tree (stores h ! configatron self) < length (trees h))"

text \<open>
  \<open>merge_attempted self d\<close>: the application of the directive \<open>d\<close> gets as far as the
  unlock of line 181, that is, it is no optional no-op and neither the test of line 169 nor
  the choice of lines 172 to 179 raises. \<open>registered_directive\<close> is the directive that
  \<open>register_parsed\<close> records for its arguments.
\<close>

definition merge_attempted :: "Configuration \<Rightarrow> directive \<Rightarrow> bool" where
  "merge_attempted self d =
     (\<not> (optional d \<and> config d = YNone) \<and> environment_missing self d = Inr False \<and>
      (case select_choice self d of Inl e \<Rightarrow> False | Inr choice \<Rightarrow> True))"


text \<open>
  \<open>mergeable h self key\<close>: what the node keeps under \<open>key\<close>, if anything, is a node of the
  store that is unlocked like \<open>self\<close>.
\<close>

definition mergeable :: "heap \<Rightarrow> addr \<Rightarrow> string \<Rightarrow> bool" where
  "mergeable h self key =
     (case map_of (attributes (stores h ! self)) key of
        None \<Rightarrow> True
      | Some (Leaf v) \<Rightarrow> False
      | Some (Store child) \<Rightarrow> child < length (stores h) \<and> \<not> get_locked h child)"

text \<open>
  The instance dictionary of a node, beyond the four fields of \<^verbatim>\<open>__init__\<close>, binds
  only names that \<open>setattr\<close> hands to \<^verbatim>\<open>object.__setattr__\<close>.
\<close>

definition instance_dict_ok :: "ConfigStore \<Rightarrow> bool" where
  "instance_dict_ok st =
     list_all (\<lambda>kv. startswith (fst kv) ''_'' \<or> hasattr_ConfigStore (fst kv)) (extras st)"

text \<open>
  A mapping is well formed when, at every level of nested mappings, no key occurs twice, as
  in a Python dictionary. \<open>depth_items\<close> is the nesting depth of mappings below a mapping.
\<close>

fun wf_doc :: "yval \<Rightarrow> bool" and wf_items :: "(string \<times> yval) list \<Rightarrow> bool" where
  "wf_doc (YDict kvs) = wf_items kvs"
| "wf_doc YNone = True"
| "wf_doc (YBool b) = True"
| "wf_doc (YInt i) = True"
| "wf_doc (YStr s) = True"
| "wf_doc (YList xs) = True"
| "wf_items [] = True"
| "wf_items ((k, v) # kvs) = (k \<notin> fst ` set kvs \<and> wf_doc v \<and> wf_items kvs)"

fun depth :: "yval \<Rightarrow> nat" and depth_items :: "(string \<times> yval) list \<Rightarrow> nat" where
  "depth (YDict kvs) = Suc (depth_items kvs)"
| "depth YNone = 0"
| "depth (YBool b) = 0"
| "depth (YInt i) = 0"
| "depth (YStr s) = 0"
| "depth (YList xs) = 0"
| "depth_items [] = 0"
| "depth_items ((k, v) # kvs) = max (depth v) (depth_items kvs)"

section \<open>Plain mappings and their representation in the store\<close>

text \<open>
  The merge of mappings, read on plain nested mappings instead of nodes (section 4.1 of the
  specification: for each pair of the incoming mapping, a nested mapping is merged into
  what the key already holds, any other value replaces it). The existing mapping holds
  mappings and other values; where an incoming mapping meets a value that is no mapping,
  or what is merged is no mapping at all, there is no result. \<open>plain_merge_all\<close> merges
  a sequence of documents, one after the other.
\<close>

fun plain_merge :: "(string \<times> yval) list \<Rightarrow> yval \<Rightarrow> (string \<times> yval) list option"
  and plain_merge_items ::
    "(string \<times> yval) list \<Rightarrow> (string \<times> yval) list \<Rightarrow> (string \<times> yval) list option" where
  "plain_merge cur (YDict kvs) = plain_merge_items cur kvs"
| "plain_merge cur YNone = None"
| "plain_merge cur (YBool b) = None"
| "plain_merge cur (YInt i) = None"
| "plain_merge cur (YStr s) = None"
| "plain_merge cur (YList xs) = None"
| "plain_merge_items cur [] = Some cur"
| "plain_merge_items cur ((key, v) # kvs) =
     (if is_dict v then
        (case map_of cur key of
           None \<Rightarrow>
             (case plain_merge [] v of
                None \<Rightarrow> None
              | Some m \<Rightarrow> plain_merge_items (AList.update key (YDict m) cur) kvs)
         | Some (YDict old) \<Rightarrow>
             (case plain_merge old v of
                None \<Rightarrow> None
              | Some m \<Rightarrow> plain_merge_items (AList.update key (YDict m) cur) kvs)
         | Some x \<Rightarrow> None)
      else plain_merge_items (AList.update key v cur) kvs)"

fun plain_merge_all :: "(string \<times> yval) list \<Rightarrow> yval list \<Rightarrow> (string \<times> yval) list option" where
  "plain_merge_all cur [] = Some cur"
| "plain_merge_all cur (d # ds) =
     (case plain_merge cur d of None \<Rightarrow> None | Some m \<Rightarrow> plain_merge_all m ds)"

text \<open>
  A caller that registers the documents \<open>ds\<close> one after the other, in memory (no file
  path), with \<^verbatim>\<open>raw=True\<close> and no mount path, and stops at the first exception.
\<close>

fun register_raw_all ::
  "Configuration \<Rightarrow> heap \<Rightarrow> yval list \<Rightarrow> (exn + unit) \<times> Configuration \<times> heap" where
  "register_raw_all self h [] = (Inr (), self, h)"
| "register_raw_all self h (d # ds) =
     (case register_parsed self h d None True False None of
        (Inl e, self1, h1) \<Rightarrow> (Inl e, self1, h1)
      | (Inr u, self1, h1) \<Rightarrow> register_raw_all self1 h1 ds)"

text \<open>
  \<open>trep t h a v\<close>: in the store \<open>h\<close>, what a node keeps as \<open>a\<close> stands for the plain value
  \<open>v\<close>. A value that is no mapping is kept as it is. A mapping is kept as a node of the
  tree \<open>t\<close> whose children stand, key by key and in order, for the entries of the mapping;
  the nodes below it (\<open>fp\<close>, its footprint) are its own: no node occurs twice below a
  node, nor below itself.
\<close>

fun fp :: "heap \<Rightarrow> attr \<Rightarrow> yval \<Rightarrow> addr set"
  and fps :: "heap \<Rightarrow> (string \<times> attr) list \<Rightarrow> (string \<times> yval) list \<Rightarrow> addr set" where
  "fp h a (YDict kvs) =
     (case a of Leaf x \<Rightarrow> {} | Store c \<Rightarrow> insert c (fps h (attributes (stores h ! c)) kvs))"
| "fp h a YNone = {}"
| "fp h a (YBool b) = {}"
| "fp h a (YInt i) = {}"
| "fp h a (YStr s) = {}"
| "fp h a (YList xs) = {}"
| "fps h al [] = {}"
| "fps h al ((k, v) # kvs) =
     (case al of [] \<Rightarrow> {} | ka # al' \<Rightarrow> fp h (snd ka) v \<union> fps h al' kvs)"

fun trep :: "addr \<Rightarrow> heap \<Rightarrow> attr \<Rightarrow> yval \<Rightarrow> bool"
  and treps :: "addr \<Rightarrow> heap \<Rightarrow> (string \<times> attr) list \<Rightarrow> (string \<times> yval) list \<Rightarrow> bool" where
  "trep t h a (YDict kvs) =
     (case a of
        Leaf x \<Rightarrow> False
      | Store c \<Rightarrow>
          c < length (stores h) \<and> config_tree (stores h ! c) = t \<and>
          c \<notin> fps h (attributes (stores h ! c)) kvs \<and>
          treps t h (attributes (stores h ! c)) kvs)"
| "trep t h a YNone = (a = Leaf YNone)"
| "trep t h a (YBool b) = (a = Leaf (YBool b))"
| "trep t h a (YInt i) = (a = Leaf (YInt i))"
| "trep t h a (YStr s) = (a = Leaf (YStr s))"
| "trep t h a (YList xs) = (a = Leaf (YList xs))"
| "treps t h al [] = (al = [])"
| "treps t h al ((k, v) # kvs) =
     (case al of
        [] \<Rightarrow> False
      | ka # al' \<Rightarrow>
          fst ka = k \<and> trep t h (snd ka) v \<and> treps t h al' kvs \<and>
          fp h (snd ka) v \<inter> fps h al' kvs = {})"

text \<open>
  \<open>good t h s cur h' cur'\<close>: from \<open>h\<close>, where the node \<open>s\<close> stands for the mapping
  \<open>cur\<close>, to \<open>h'\<close>, where it stands for \<open>cur'\<close>, the lock flags are unchanged, the
  footprint of \<open>s\<close> has grown by new nodes only, and no node of \<open>h\<close> outside the footprint
  has changed. \<open>refines h s kvs\<close>: merging \<open>kvs\<close> into an unlocked node \<open>s\<close> that stands
  for a mapping does what \<open>plain_merge_items\<close> does to that mapping, and raises where it
  has no result.
\<close>

definition good ::
  "addr \<Rightarrow> heap \<Rightarrow> addr \<Rightarrow> (string \<times> yval) list \<Rightarrow> heap \<Rightarrow> (string \<times> yval) list \<Rightarrow> bool" where
  "good t h s cur h' cur' =
     (trees h' = trees h \<and> length (stores h) \<le> length (stores h') \<and>
      trep t h' (Store s) (YDict cur') \<and>
      fp h' (Store s) (YDict cur') \<subseteq>
        fp h (Store s) (YDict cur) \<union> {length (stores h) ..< length (stores h')} \<and>
      (\<forall>a < length (stores h). a \<notin> fp h (Store s) (YDict cur) \<longrightarrow>
         stores h' ! a = stores h ! a))"

definition refines ::
  "heap \<Rightarrow> addr \<Rightarrow> (string \<times> yval) list \<Rightarrow> bool" where
  "refines h s kvs =
     (\<forall>t cur. trep t h (Store s) (YDict cur) \<longrightarrow> \<not> locked (trees h ! t) \<longrightarrow>
        (case plain_merge_items cur kvs of
           None \<Rightarrow> (\<exists>e h'. update_items h s kvs = (Inl e, h'))
         | Some cur' \<Rightarrow> (\<exists>h'. update_items h s kvs = (Inr (), h') \<and> good t h s cur h' cur')))"

section \<open>Example states\<close>

text \<open>A locked and an unlocked hierarchy of one node that holds one value, and an unlocked
  one whose node holds a number under \<^verbatim>\<open>a\<close>.\<close>

definition locked_example :: heap where
  "locked_example =
     \<lparr>trees = [\<lparr>locked = True\<rparr>],
      stores = [\<lparr>config_tree = 0, name = ''config'', path = [],
                 attributes = [(''host'', Leaf (YStr ''db''))], extras = []\<rparr>]\<rparr>"

definition unlocked_example :: heap where
  "unlocked_example =
     \<lparr>trees = [\<lparr>locked = False\<rparr>],
      stores = [\<lparr>config_tree = 0, name = ''config'', path = [],
                 attributes = [(''host'', Leaf (YStr ''db''))], extras = []\<rparr>]\<rparr>"

definition scalar_example :: heap where
  "scalar_example =
     \<lparr>trees = [\<lparr>locked = False\<rparr>],
      stores = [\<lparr>config_tree = 0, name = ''config'', path = [],
                 attributes = [(''a'', Leaf (YInt 5))], extras = []\<rparr>]\<rparr>"

text \<open>
  A process whose environment file says \<^verbatim>\<open>dev\<close>, with a file of two environments, an
  empty file and a file that the parser rejects. \<open>yaml_stub\<close> stands for the parser on the
  contents of these files.
\<close>

definition empty_heap :: heap where
  "empty_heap = \<lparr>trees = [], stores = []\<rparr>"

definition env_yaml :: yval where
  "env_yaml = YDict [(''prod'', YDict [(''x'', YInt 1)]), (''dev'', YDict [(''x'', YInt 2)])]"

definition dev_files :: filesystem where
  "dev_files p =
     (if p = ''/etc/flags/env'' then Some ''dev''
      else if p = ''/env.yaml'' then Some ''{prod: {x: 1}, dev: {x: 2}}''
      else if p = ''/empty.yaml'' then Some []
      else if p = ''/bad.yaml'' then Some ''{prod: ''
      else None)"

definition yaml_stub :: "string \<Rightarrow> string + yval" where
  "yaml_stub contents =
     (if contents = ''{prod: {x: 1}, dev: {x: 2}}'' then Inr env_yaml
      else if contents = [] then Inr YNone
      else Inl ''could not parse'')"

definition dev_started :: "Configuration \<times> heap" where
  "dev_started = Configuration_init dev_files empty_heap"

definition dev_registered :: "(exn + unit) \<times> Configuration \<times> heap" where
  "dev_registered =
     register dev_files yaml_stub (fst dev_started) (snd dev_started)
       ''/env.yaml'' False False None"

definition empty_raw_registered :: "(exn + unit) \<times> Configuration \<times> heap" where
  "empty_raw_registered =
     register dev_files yaml_stub (fst dev_started) (snd dev_started)
       ''/empty.yaml'' True False None"

text \<open>
  After the failed registration of the empty file, an optional registration of a file that
  does not exist; and a registration in memory under the mount path \<^verbatim>\<open>a\<close>.
\<close>

definition missing_optional_registered :: "(exn + unit) \<times> Configuration \<times> heap" where
  "missing_optional_registered =
     register dev_files yaml_stub (fst (snd empty_raw_registered)) (snd (snd empty_raw_registered))
       ''/missing.yaml'' False True None"

definition mounted_registered :: "(exn + unit) \<times> Configuration \<times> heap" where
  "mounted_registered =
     register_parsed (fst dev_started) (snd dev_started) (YDict [(''x'', YInt 1)])
       None True False (Some ''a'')"

text \<open>The two mappings \<^verbatim>\<open>{a: {b: 1}}\<close> and \<^verbatim>\<open>{a: {c: 2}}\<close>, and a nested mapping.\<close>

definition merge_ab :: yval where
  "merge_ab = YDict [(''a'', YDict [(''b'', YInt 1)])]"

definition merge_ac :: yval where
  "merge_ac = YDict [(''a'', YDict [(''c'', YInt 2)])]"

definition nested_example :: "(string \<times> yval) list" where
  "nested_example =
     [(''database'', YDict [(''host'', YStr ''db''), (''port'', YInt 5432)]),
      (''debug'', YBool False)]"

text \<open>A second mapping to register after \<open>nested_example\<close>, and the merge of the two.\<close>

definition override_example :: "(string \<times> yval) list" where
  "override_example =
     [(''database'', YDict [(''port'', YInt 6543), (''user'', YStr ''app'')])]"

definition merged_example :: "(string \<times> yval) list" where
  "merged_example =
     [(''database'', YDict [(''host'', YStr ''db''), (''port'', YInt 6543), (''user'', YStr ''app'')]),
      (''debug'', YBool False)]"

section \<open>Properties\<close>

subsection \<open>Locked and unlocked nodes\<close>

text \<open>
  C5. On a node whose tree is locked, \<open>getitem\<close> of a key that is not among the node's
  children raises \<open>UndefinedKeyError\<close>, naming the node and the key, and the store is
  left as it was: no child is created.
\<close>

theorem getitem_locked_missing:
  assumes "get_locked h self"
    and "map_of (attributes (stores h ! self)) key = None"
  shows "getitem h self key =
           (Inl (UndefinedKeyError
              (''Configuration key not found: '' @ name (stores h ! self) @ ''.'' @ key)), h)"
  using assms by (simp add: getitem_def)

text \<open>
  C6. On a node whose tree is locked, \<open>setitem\<close> raises \<open>LockedError\<close> for every key
  and value, and the store is left as it was.
\<close>

theorem setitem_locked:
  assumes "get_locked h self"
  shows "setitem h self key v =
           (Inl (LockedError
              (''Cannot set key '' @ key @ '' for locked '' @ name (stores h ! self))), h)"
  using assms by (simp add: setitem_def)

theorem getitem_locked_missing_witness:
  "get_locked locked_example 0 \<and>
   map_of (attributes (stores locked_example ! 0)) ''port'' = None \<and>
   getitem locked_example 0 ''port'' =
     (Inl (UndefinedKeyError ''Configuration key not found: config.port''), locked_example)"
  using getitem_locked_missing [of locked_example 0 "''port''"]
  by (simp add: locked_example_def get_locked_def)

theorem setitem_locked_witness:
  "get_locked locked_example 0 \<and>
   setitem locked_example 0 ''host'' (Leaf (YStr ''other'')) =
     (Inl (LockedError ''Cannot set key host for locked config''), locked_example)"
  using setitem_locked [of locked_example 0 "''host''" "Leaf (YStr ''other'')"]
  by (simp add: locked_example_def get_locked_def)

text \<open>
  C7. On a node whose tree is unlocked, \<open>getitem\<close> of a key that is not among the node's
  children allocates a new node (at an address that no object had before), empty, named
  after its parent and sharing its tree, stores it under the key and returns it; a second
  \<open>getitem\<close> of the key returns the same address and changes nothing.
\<close>

theorem getitem_unlocked_missing:
  assumes "self < length (stores h)"
    and "\<not> get_locked h self"
    and "map_of (attributes (stores h ! self)) key = None"
  shows "(let child = length (stores h); h1 = snd (getitem h self key) in
            fst (getitem h self key) = Inr (Store child) \<and>
            length (stores h1) = Suc (length (stores h)) \<and>
            stores h1 ! child =
              \<lparr>config_tree = config_tree (stores h ! self),
               name = name (stores h ! self) @ ''.'' @ key,
               path = path (stores h ! self) @ [key],
               attributes = [], extras = []\<rparr> \<and>
            map_of (attributes (stores h1 ! self)) key = Some (Store child) \<and>
            getitem h1 self key = (Inr (Store child), h1))"
  using assms
  by (simp add: getitem_def ConfigStore_init_def set_attribute_def Let_def
      nth_append AList.update_conv')

theorem getitem_unlocked_missing_witness:
  "0 < length (stores unlocked_example) \<and> \<not> get_locked unlocked_example 0 \<and>
   map_of (attributes (stores unlocked_example ! 0)) ''port'' = None \<and>
   fst (getitem unlocked_example 0 ''port'') = Inr (Store 1) \<and>
   getitem (snd (getitem unlocked_example 0 ''port'')) 0 ''port'' =
     (Inr (Store 1), snd (getitem unlocked_example 0 ''port''))"
  using getitem_unlocked_missing [of 0 unlocked_example "''port''"]
  by (simp add: unlocked_example_def get_locked_def Let_def)

subsection \<open>Attribute access\<close>

text \<open>A public name that is no attribute of the class is read as an item.\<close>

lemma public_read:
  assumes "\<not> startswith key ''_''"
    and "\<not> hasattr_ConfigStore key"
    and "instance_dict_ok (stores h ! self)"
  shows "getattribute h self key =
           (case getitem h self key of (r, h1) \<Rightarrow> (map_sum id Obj r, h1))"
proof -
  have not_locked: "key \<noteq> ''locked''"
    using assms(2) by (auto simp: hasattr_ConfigStore_def class_namespace_def)
  have not_field: "key \<notin> set instance_fields"
    using assms(1) by (auto simp: instance_fields_def startswith_def)
  have not_class: "key \<notin> set class_namespace"
    using assms(2) by (simp add: hasattr_ConfigStore_def)
  have not_extra: "map_of (extras (stores h ! self)) key = None"
  proof (rule ccontr)
    assume "map_of (extras (stores h ! self)) key \<noteq> None"
    then obtain x where "(key, x) \<in> set (extras (stores h ! self))"
      by (auto dest: map_of_SomeD)
    with assms(3) have "startswith key ''_'' \<or> hasattr_ConfigStore key"
      by (auto simp: instance_dict_ok_def list_all_iff)
    with assms(1,2) show False by simp
  qed
  have "getattr h self key = getitem h self key"
    using assms(1,2) by (simp add: getattr_def)
  then show ?thesis
    using not_locked not_field not_class not_extra
    by (auto simp: getattribute_def split: prod.splits sum.splits)
qed

lemma attributes_is_public:
  "\<not> startswith ''attributes'' ''_''" "\<not> hasattr_ConfigStore ''attributes''"
  by (simp_all add: startswith_def hasattr_ConfigStore_def class_namespace_def type_namespace_def)

text \<open>The assignments \<^verbatim>\<open>self.configatron.locked = ...\<close> of the module run the setter
  of the property.\<close>

lemma setattr_locked: "setattr h self ''locked'' (Leaf (YBool b)) = (Inr (), set_locked h self b)"
  by (simp add: setattr_def object_setattr_def hasattr_ConfigStore_def class_namespace_def)

text \<open>
  C10. For a key that does not start with an underscore and that \<open>hasattr_ConfigStore\<close>
  does not find on the class, reading \<^verbatim>\<open>node.key\<close> gives what \<open>getitem\<close> gives (the
  same value or the same error, and the same store), and writing \<^verbatim>\<open>node.key = v\<close> is
  \<open>setitem\<close>.
\<close>

theorem attribute_access_is_item_access:
  assumes "\<not> startswith key ''_''"
    and "\<not> hasattr_ConfigStore key"
    and "instance_dict_ok (stores h ! self)"
  shows "getattribute h self key =
           (case getitem h self key of (r, h1) \<Rightarrow> (map_sum id Obj r, h1)) \<and>
         setattr h self key v = setitem h self key v"
proof -
  have "setattr h self key v = setitem h self key v"
    using assms(1,2) by (simp add: setattr_def)
  with public_read [OF assms] show ?thesis by simp
qed

theorem attribute_access_is_item_access_witness:
  "\<not> startswith ''port'' ''_'' \<and> \<not> hasattr_ConfigStore ''port'' \<and>
   instance_dict_ok (stores locked_example ! 0) \<and>
   getattribute locked_example 0 ''port'' =
     (Inl (UndefinedKeyError ''Configuration key not found: config.port''), locked_example) \<and>
   setattr locked_example 0 ''port'' (Leaf (YInt 5432)) =
     (Inl (LockedError ''Cannot set key port for locked config''), locked_example)"
proof -
  have a: "\<not> startswith ''port'' ''_''"
    by (simp add: startswith_def)
  have b: "\<not> hasattr_ConfigStore ''port''"
    by (simp add: hasattr_ConfigStore_def class_namespace_def type_namespace_def)
  have c: "instance_dict_ok (stores locked_example ! 0)"
    by (simp add: instance_dict_ok_def locked_example_def)
  have g: "getitem locked_example 0 ''port'' =
      (Inl (UndefinedKeyError ''Configuration key not found: config.port''), locked_example)"
    by (simp add: getitem_def locked_example_def get_locked_def)
  have s: "setitem locked_example 0 ''port'' (Leaf (YInt 5432)) =
      (Inl (LockedError ''Cannot set key port for locked config''), locked_example)"
    by (simp add: setitem_def locked_example_def get_locked_def)
  from attribute_access_is_item_access [OF a b c, of "Leaf (YInt 5432)"] a b c g s
  show ?thesis by simp
qed

subsection \<open>What the operations leave unchanged\<close>

lemma extends_refl [simp]: "extends h h"
  by (simp add: extends_def)


lemma config_tree_list_update:
  "config_tree (f (xs ! i)) = config_tree (xs ! i) \<Longrightarrow>
   config_tree (xs[i := f (xs ! i)] ! a) = config_tree (xs ! a)"
  by (cases "i < length xs"; cases "i = a"; simp add: list_update_beyond)

lemma extends_set_attribute [simp]: "extends h (set_attribute h self key v)"
  by (simp add: extends_def set_attribute_def
      config_tree_list_update [where f = "attributes_update g" for g])

lemma extends_set_extra [simp]: "extends h (set_extra h self key v)"
  by (simp add: extends_def set_extra_def
      config_tree_list_update [where f = "extras_update g" for g])









lemma valid_root_set_locked [simp]: "valid_root self (set_locked h a v) = valid_root self h"
  by (simp add: valid_root_def set_locked_def)





lemma get_locked_set_attribute [simp]:
  "get_locked (set_attribute h self key v) a = get_locked h a"
  by (simp add: get_locked_def set_attribute_def
      config_tree_list_update [where f = "attributes_update g" for g])

lemma stores_set_attribute_same:
  "self < length (stores h) \<Longrightarrow>
   attributes (stores (set_attribute h self key v) ! self) =
     AList.update key v (attributes (stores h ! self))"
  by (simp add: set_attribute_def)

lemma stores_set_attribute_other:
  "a \<noteq> self \<Longrightarrow> stores (set_attribute h self key v) ! a = stores h ! a"
  by (simp add: set_attribute_def)

lemma length_stores_set_attribute [simp]:
  "length (stores (set_attribute h self key v)) = length (stores h)"
  by (simp add: set_attribute_def)

subsection \<open>The example process\<close>

lemma dev_started_eq:
  "dev_started =
     (\<lparr>directives = [], env = ''dev'', configatron = 0\<rparr>,
      \<lparr>trees = [\<lparr>locked = True\<rparr>],
       stores = [\<lparr>config_tree = 0, name = ''config'', path = [],
                  attributes = [], extras = []\<rparr>]\<rparr>)"
  by (simp add: dev_started_def Configuration_init_def discover_env_def dev_files_def
      strip_def is_space_def ConfigStore_init_def ConfigTree_init_def empty_heap_def
      set_locked_def)

lemma dev_registered_eq:
  "dev_registered =
     (Inr (),
      \<lparr>directives = [\<lparr>config = env_yaml, filepath = Some ''/env.yaml'', raw = False,
                       optional = False, nested = None\<rparr>],
       env = ''dev'', configatron = 0\<rparr>,
      \<lparr>trees = [\<lparr>locked = True\<rparr>],
       stores = [\<lparr>config_tree = 0, name = ''config'', path = [],
                  attributes = [(''x'', Leaf (YInt 2))], extras = []\<rparr>]\<rparr>)"
  by (simp add: dev_registered_def dev_started_eq register_def startswith_def dev_files_def
      yaml_stub_def register_parsed_def mixin_config_def environment_missing_def
      filepath_truthy_def env_yaml_def select_choice_def set_locked_def setitem_def
      get_locked_def set_attribute_def)

subsection \<open>Directives\<close>









lemma merge_attempted_directives [simp]:
  "merge_attempted (self\<lparr>directives := ds\<rparr>) d = merge_attempted self d"
  by (simp add: merge_attempted_def environment_missing_def select_choice_def)


lemma empty_raw_registered_eq:
  "empty_raw_registered =
     (Inl (AttributeError ''iteritems''),
      \<lparr>directives = [\<lparr>config = YNone, filepath = Some ''/empty.yaml'', raw = True,
                       optional = False, nested = None\<rparr>],
       env = ''dev'', configatron = 0\<rparr>,
      \<lparr>trees = [\<lparr>locked = False\<rparr>],
       stores = [\<lparr>config_tree = 0, name = ''config'', path = [],
                  attributes = [], extras = []\<rparr>]\<rparr>)"
  by (simp add: empty_raw_registered_def dev_started_eq register_def startswith_def
      dev_files_def yaml_stub_def register_parsed_def mixin_config_def
      environment_missing_def select_choice_def set_locked_def)

text \<open>Starting from an unlocked tree, the optional no-op returns normally and the tree is
  unlocked as before.\<close>

lemma optional_noop_on_unlocked_tree:
  "fst missing_optional_registered = Inr () \<and>
   snd (snd missing_optional_registered) = snd (snd empty_raw_registered) \<and>
   \<not> get_locked (snd (snd missing_optional_registered))
        (configatron (fst (snd missing_optional_registered)))"
  by (simp add: missing_optional_registered_def empty_raw_registered_eq register_def
      startswith_def dev_files_def register_parsed_def mixin_config_def get_locked_def)



text \<open>
  C3. When the file exists and the parser raises, \<open>register\<close> raises \<open>NameError\<close> for
  the name \<^verbatim>\<open>sys\<close>, which the module does not import, and not \<open>ConfigFileError\<close>.
\<close>

theorem register_parse_failure:
  assumes "startswith p ''/''"
    and "fs p = Some contents"
    and "yaml_load contents = Inl e"
  shows "register fs yaml_load self h p raw_arg optional_arg nested_arg =
           (Inl (NameError ''sys''), self, h)"
  using assms by (simp add: register_def global_lookup_def module_globals_def)

theorem register_parse_failure_witness:
  "startswith ''/bad.yaml'' ''/'' \<and> dev_files ''/bad.yaml'' = Some ''{prod: '' \<and>
   yaml_stub ''{prod: '' = Inl ''could not parse'' \<and>
   register dev_files yaml_stub (fst dev_started) (snd dev_started) ''/bad.yaml''
     False False None =
     (Inl (NameError ''sys''), fst dev_started, snd dev_started)"
proof -
  have a: "startswith ''/bad.yaml'' ''/''" by (simp add: startswith_def)
  have b: "dev_files ''/bad.yaml'' = Some ''{prod: ''" by (simp add: dev_files_def)
  have c: "yaml_stub ''{prod: '' = Inl ''could not parse''" by (simp add: yaml_stub_def)
  from register_parse_failure [of "''/bad.yaml''" dev_files "''{prod: ''" yaml_stub, OF a b c] a b c
  show ?thesis by simp
qed

text \<open>
  C1. On a locked tree whose root holds nothing under the key \<^verbatim>\<open>attributes\<close>,
  \<open>set_env\<close> raises \<open>UndefinedKeyError\<close> for that key at whatever recursion depth, and
  the store is as it was: \<open>clear\<close> reads \<^verbatim>\<open>self.attributes\<close>, an item of the locked
  tree, where the field is \<^verbatim>\<open>self._attributes\<close>, and no directive is replayed. In the
  example process the file of two environments is registered under \<^verbatim>\<open>dev\<close>, the tree
  is \<^verbatim>\<open>{x: 2}\<close>, and after \<open>set_env\<close> to \<^verbatim>\<open>prod\<close> it still is.
\<close>

theorem set_env_raises:
  assumes "get_locked h (configatron self)"
    and "map_of (attributes (stores h ! configatron self)) ''attributes'' = None"
    and "instance_dict_ok (stores h ! configatron self)"
  shows "set_env (Suc fuel) self h e =
           Some (Inl (UndefinedKeyError
                   (''Configuration key not found: '' @
                    name (stores h ! configatron self) @ ''.attributes'')),
                 self\<lparr>env := e\<rparr>, h)"
proof -
  have "getattribute h (configatron self) ''attributes'' =
      (Inl (UndefinedKeyError
         (''Configuration key not found: '' @
          name (stores h ! configatron self) @ ''.attributes'')), h)"
    using assms(1,2)
    by (simp add: public_read [OF attributes_is_public assms(3)] getitem_def)
  then show ?thesis
    by (simp add: set_env_def reapply_config_def)
qed

theorem set_env_raises_witness:
  "fst dev_registered = Inr () \<and>
   to_dict 1 (snd (snd dev_registered)) (configatron (fst (snd dev_registered))) =
     Some [(''x'', YInt 2)] \<and>
   get_locked (snd (snd dev_registered)) (configatron (fst (snd dev_registered))) \<and>
   map_of (attributes (stores (snd (snd dev_registered)) ! configatron (fst (snd dev_registered))))
     ''attributes'' = None \<and>
   instance_dict_ok (stores (snd (snd dev_registered)) ! configatron (fst (snd dev_registered))) \<and>
   set_env (Suc 0) (fst (snd dev_registered)) (snd (snd dev_registered)) ''prod'' =
     Some (Inl (UndefinedKeyError ''Configuration key not found: config.attributes''),
           (fst (snd dev_registered))\<lparr>env := ''prod''\<rparr>, snd (snd dev_registered)) \<and>
   to_dict 1 (snd (snd dev_registered)) (configatron (fst (snd dev_registered))) \<noteq>
     Some [(''x'', YInt 1)]"
proof -
  have a: "get_locked (snd (snd dev_registered)) (configatron (fst (snd dev_registered)))"
    by (simp add: dev_registered_eq get_locked_def)
  have b: "map_of (attributes (stores (snd (snd dev_registered)) !
      configatron (fst (snd dev_registered)))) ''attributes'' = None"
    by (simp add: dev_registered_eq)
  have c: "instance_dict_ok (stores (snd (snd dev_registered)) !
      configatron (fst (snd dev_registered)))"
    by (simp add: dev_registered_eq instance_dict_ok_def)
  from set_env_raises [OF a b c, of 0 "''prod''"] a b c show ?thesis
    by (simp add: dev_registered_eq)
qed

subsection \<open>Merging\<close>

text \<open>
  C8, as the claim states it, fails: an unlocked node that holds a number under
  \<^verbatim>\<open>a\<close> rejects the mapping \<^verbatim>\<open>{a: {b: 1}}\<close> with \<open>AttributeError\<close>.
\<close>

theorem merge_scalar_counterexample:
  "\<not> get_locked scalar_example 0 \<and>
   update_dict scalar_example 0 merge_ab = (Inl (AttributeError ''update_dict''), scalar_example)"
  by (simp add: scalar_example_def merge_ab_def get_locked_def getitem_def)

text \<open>Merging \<^verbatim>\<open>{a: {k: i}}\<close> into a node, by what the node holds under
  \<^verbatim>\<open>a\<close>.\<close>

lemma merge_into_present:
  assumes "map_of (attributes (stores h ! self)) ''a'' = Some (Store c)"
    and "c < length (stores h)" and "\<not> get_locked h c"
  shows "update_dict h self (YDict [(''a'', YDict [(k, YInt i)])]) =
           (Inr (), set_attribute h c k (Leaf (YInt i)))"
  using assms by (simp add: getitem_def setitem_def)

lemma merge_into_absent:
  assumes "map_of (attributes (stores h ! self)) ''a'' = None"
    and "self < length (stores h)" and "\<not> get_locked h self"
  shows "\<exists>h1. update_dict h self (YDict [(''a'', YDict [(k, YInt i)])]) = (Inr (), h1) \<and>
           length (stores h1) = Suc (length (stores h)) \<and>
           map_of (attributes (stores h1 ! self)) ''a'' = Some (Store (length (stores h))) \<and>
           attributes (stores h1 ! length (stores h)) = [(k, Leaf (YInt i))] \<and>
           \<not> get_locked h1 self \<and> \<not> get_locked h1 (length (stores h))"
  using assms
  by (simp add: getitem_def setitem_def ConfigStore_init_def Let_def set_attribute_def
      get_locked_def nth_append AList.update_conv' nth_list_update)

text \<open>
  C8, amended. On an unlocked node that holds nothing or an unlocked node under \<^verbatim>\<open>a\<close>,
  merging \<^verbatim>\<open>{a: {b: 1}}\<close> and then \<^verbatim>\<open>{a: {c: 2}}\<close> succeeds and leaves a child
  under \<^verbatim>\<open>a\<close> that holds \<^verbatim>\<open>b = 1\<close> and \<^verbatim>\<open>c = 2\<close>; a child that was there
  before is the same node afterwards and keeps its other entries.
\<close>

theorem merge_additive:
  assumes "self < length (stores h)"
    and "\<not> get_locked h self"
    and "mergeable h self ''a''"
  shows "\<exists>h1 h2 c.
           update_dict h self merge_ab = (Inr (), h1) \<and>
           update_dict h1 self merge_ac = (Inr (), h2) \<and>
           map_of (attributes (stores h2 ! self)) ''a'' = Some (Store c) \<and>
           map_of (attributes (stores h2 ! c)) ''b'' = Some (Leaf (YInt 1)) \<and>
           map_of (attributes (stores h2 ! c)) ''c'' = Some (Leaf (YInt 2)) \<and>
           (map_of (attributes (stores h ! self)) ''a'' \<noteq> None \<longrightarrow>
              map_of (attributes (stores h ! self)) ''a'' = Some (Store c) \<and>
              (\<forall>k. k \<noteq> ''b'' \<longrightarrow> k \<noteq> ''c'' \<longrightarrow>
                 map_of (attributes (stores h2 ! c)) k = map_of (attributes (stores h ! c)) k))"
proof (cases "map_of (attributes (stores h ! self)) ''a''")
  case None
  from merge_into_absent [OF None assms(1,2), of "''b''" 1]
  obtain h1 where h1: "update_dict h self merge_ab = (Inr (), h1)"
    "length (stores h1) = Suc (length (stores h))"
    "map_of (attributes (stores h1 ! self)) ''a'' = Some (Store (length (stores h)))"
    "attributes (stores h1 ! length (stores h)) = [(''b'', Leaf (YInt 1))]"
    "\<not> get_locked h1 (length (stores h))"
    by (auto simp: merge_ab_def)
  let ?c = "length (stores h)"
  let ?h2 = "set_attribute h1 ?c ''c'' (Leaf (YInt 2))"
  have c: "?c < length (stores h1)" using h1(2) by simp
  have ne: "?c \<noteq> self" using assms(1) by simp
  have u2: "update_dict h1 self merge_ac = (Inr (), ?h2)"
    unfolding merge_ac_def using h1(3) c h1(5) by (rule merge_into_present)
  have "map_of (attributes (stores ?h2 ! self)) ''a'' = Some (Store ?c)"
    using h1(3) ne by (simp add: stores_set_attribute_other)
  moreover have "attributes (stores ?h2 ! ?c) = [(''b'', Leaf (YInt 1)), (''c'', Leaf (YInt 2))]"
    using c h1(4) by (simp add: stores_set_attribute_same)
  ultimately show ?thesis
    using h1(1) u2 None by auto
next
  case (Some x)
  with assms(3) obtain c where x: "x = Store c" and c: "c < length (stores h)" "\<not> get_locked h c"
    by (auto simp: mergeable_def split: attr.splits)
  let ?h1 = "set_attribute h c ''b'' (Leaf (YInt 1))"
  let ?h2 = "set_attribute ?h1 c ''c'' (Leaf (YInt 2))"
  have a0: "map_of (attributes (stores h ! self)) ''a'' = Some (Store c)"
    using Some x by simp
  have u1: "update_dict h self merge_ab = (Inr (), ?h1)"
    unfolding merge_ab_def using a0 c by (rule merge_into_present)
  have a1: "map_of (attributes (stores ?h1 ! self)) ''a'' = Some (Store c)"
    using a0 c(1) by (cases "self = c")
      (simp_all add: stores_set_attribute_same stores_set_attribute_other AList.update_conv')
  have u2: "update_dict ?h1 self merge_ac = (Inr (), ?h2)"
    unfolding merge_ac_def using a1 c by (intro merge_into_present) simp_all
  have a2: "map_of (attributes (stores ?h2 ! self)) ''a'' = Some (Store c)"
    using a1 c(1) by (cases "self = c")
      (simp_all add: stores_set_attribute_same stores_set_attribute_other AList.update_conv')
  have at: "attributes (stores ?h2 ! c) =
      AList.update ''c'' (Leaf (YInt 2)) (AList.update ''b'' (Leaf (YInt 1)) (attributes (stores h ! c)))"
    using c(1) by (simp add: stores_set_attribute_same)
  show ?thesis
    using u1 u2 a2 a0 by (auto simp: at AList.update_conv')
qed

theorem merge_additive_witness:
  "0 < length (stores unlocked_example) \<and> \<not> get_locked unlocked_example 0 \<and>
   mergeable unlocked_example 0 ''a'' \<and>
   (\<exists>h1 h2 c.
      update_dict unlocked_example 0 merge_ab = (Inr (), h1) \<and>
      update_dict h1 0 merge_ac = (Inr (), h2) \<and>
      map_of (attributes (stores h2 ! 0)) ''a'' = Some (Store c) \<and>
      map_of (attributes (stores h2 ! c)) ''b'' = Some (Leaf (YInt 1)) \<and>
      map_of (attributes (stores h2 ! c)) ''c'' = Some (Leaf (YInt 2)))"
proof -
  have a: "0 < length (stores unlocked_example)"
    by (simp add: unlocked_example_def)
  have b: "\<not> get_locked unlocked_example 0"
    by (simp add: unlocked_example_def get_locked_def)
  have c: "mergeable unlocked_example 0 ''a''"
    by (simp add: unlocked_example_def mergeable_def)
  from merge_additive [OF a b c] a b c show ?thesis by blast
qed

subsection \<open>Round trip\<close>

text \<open>Binding a new key appends it; a lookup of a missing key in an unlocked node creates
  exactly one node.\<close>

lemma update_fresh: "k \<notin> fst ` set al \<Longrightarrow> AList.update k v al = al @ [(k, v)]"
  by (induction al) auto

lemma getitem_creates:
  assumes "self < length (stores h)" and "\<not> get_locked h self"
    and "map_of (attributes (stores h ! self)) key = None"
  shows "\<exists>h1. getitem h self key = (Inr (Store (length (stores h))), h1) \<and>
           trees h1 = trees h \<and> length (stores h1) = Suc (length (stores h)) \<and>
           (\<forall>a < length (stores h). a \<noteq> self \<longrightarrow> stores h1 ! a = stores h ! a) \<and>
           stores h1 ! self = (stores h ! self)
             \<lparr>attributes := AList.update key (Store (length (stores h)))
                (attributes (stores h ! self))\<rparr> \<and>
           attributes (stores h1 ! length (stores h)) = [] \<and>
           config_tree (stores h1 ! length (stores h)) = config_tree (stores h ! self)"
  using assms
  by (simp add: getitem_def ConfigStore_init_def set_attribute_def Let_def
      nth_append AList.update_conv' nth_list_update)

text \<open>
  A representation lies within the store, and it is the same in every store that agrees
  on its footprint.
\<close>

lemma trep_leaf: "\<not> is_dict v \<Longrightarrow> trep t h a v = (a = Leaf v)"
  by (cases v) simp_all

lemma fp_Leaf [simp]: "fp h (Leaf x) v = {}"
  by (cases v) simp_all

lemma fp_bound:
  "trep t h a v \<Longrightarrow> fp h a v \<subseteq> {..<length (stores h)}"
  "treps t h al kvs \<Longrightarrow> fps h al kvs \<subseteq> {..<length (stores h)}"
  by (induction t h a v and t h al kvs rule: trep_treps.induct)
     (auto split: attr.splits list.splits)

lemma trep_stable:
  "trep t h a v \<Longrightarrow> length (stores h) \<le> length (stores h') \<Longrightarrow>
     (\<forall>c \<in> fp h a v. stores h' ! c = stores h ! c) \<Longrightarrow>
     trep t h' a v \<and> fp h' a v = fp h a v"
  "treps t h al kvs \<Longrightarrow> length (stores h) \<le> length (stores h') \<Longrightarrow>
     (\<forall>c \<in> fps h al kvs. stores h' ! c = stores h ! c) \<Longrightarrow>
     treps t h' al kvs \<and> fps h' al kvs = fps h al kvs"
proof (induction t h a v and t h al kvs rule: trep_treps.induct)
  case (1 t h a kvs)
  then obtain c where a: "a = Store c" by (cases a) auto
  with "1.prems" have c: "c < length (stores h)" "config_tree (stores h ! c) = t"
    "c \<notin> fps h (attributes (stores h ! c)) kvs" "treps t h (attributes (stores h ! c)) kvs"
    "stores h' ! c = stores h ! c"
    by auto
  have "treps t h' (attributes (stores h ! c)) kvs \<and>
        fps h' (attributes (stores h ! c)) kvs = fps h (attributes (stores h ! c)) kvs"
    using "1.IH" [OF a c(4) "1.prems"(2)] "1.prems"(3) a by auto
  with c "1.prems"(2) show ?case by (simp add: a)
next
  case (8 t h al k v kvs)
  then obtain ka al' where al: "al = ka # al'" by (cases al) auto
  with "8.prems" have p: "fst ka = k" "trep t h (snd ka) v" "treps t h al' kvs"
    "fp h (snd ka) v \<inter> fps h al' kvs = {}"
    by auto
  have h: "trep t h' (snd ka) v \<and> fp h' (snd ka) v = fp h (snd ka) v"
    using "8.IH"(1) [OF al p(2) "8.prems"(2)] "8.prems"(3) al by auto
  have tl: "treps t h' al' kvs \<and> fps h' al' kvs = fps h al' kvs"
    using "8.IH"(2) [OF al p(3) "8.prems"(2)] "8.prems"(3) al by auto
  from h tl p show ?case by (simp add: al)
qed auto

text \<open>The children of a node and the mapping they stand for have the same keys, and a
  child stands for the value under its key.\<close>

lemma treps_keys: "treps t h al kvs \<Longrightarrow> map fst al = map fst kvs"
  by (induction kvs arbitrary: al) (auto split: list.splits)

lemma treps_map_of_None:
  assumes "treps t h al kvs"
  shows "(map_of al k = None) = (map_of kvs k = None)"
proof -
  have "set (map fst al) = set (map fst kvs)"
    using treps_keys [OF assms] by simp
  then have "fst ` set al = fst ` set kvs" by simp
  then show ?thesis by (simp add: map_of_eq_None_iff)
qed

lemma treps_lookup:
  "treps t h al kvs \<Longrightarrow> map_of al k = Some a \<Longrightarrow>
   \<exists>v. map_of kvs k = Some v \<and> trep t h a v \<and> fp h a v \<subseteq> fps h al kvs"
proof (induction kvs arbitrary: al)
  case Nil
  then show ?case by simp
next
  case (Cons kv kvs)
  obtain k' v where kv: "kv = (k', v)" by (cases kv)
  from Cons.prems obtain a' al' where al: "al = (k', a') # al'"
    and p: "trep t h a' v" "treps t h al' kvs"
    by (auto simp: kv split: list.splits)
  show ?case
  proof (cases "k' = k")
    case True
    with Cons.prems al p show ?thesis by (auto simp: kv)
  next
    case False
    with Cons.prems al have "map_of al' k = Some a" by simp
    from Cons.IH [OF p(2) this] False show ?thesis by (auto simp: kv al)
  qed
qed

text \<open>
  How the representation of the children follows one entry of an incoming mapping: a new
  child is appended, a value that is no mapping replaces what was there, and a child that
  has been merged into stays in its place among children that have not changed.
\<close>

lemma treps_append:
  "treps t h al kvs \<Longrightarrow> trep t h a v \<Longrightarrow> fp h a v \<inter> fps h al kvs = {} \<Longrightarrow>
   treps t h (al @ [(k, a)]) (kvs @ [(k, v)]) \<and>
   fps h (al @ [(k, a)]) (kvs @ [(k, v)]) = fps h al kvs \<union> fp h a v"
proof (induction kvs arbitrary: al)
  case Nil
  then show ?case by simp
next
  case (Cons kv kvs)
  obtain k' v' where kv: "kv = (k', v')" by (cases kv)
  from Cons.prems obtain a' al' where al: "al = (k', a') # al'"
    and p: "trep t h a' v'" "treps t h al' kvs" "fp h a' v' \<inter> fps h al' kvs = {}"
    by (auto simp: kv split: list.splits)
  from Cons.prems(3) have d: "fp h a v \<inter> fps h al' kvs = {}" "fp h a v \<inter> fp h a' v' = {}"
    by (auto simp: kv al)
  from Cons.IH [OF p(2) Cons.prems(2) d(1)] p d show ?case
    by (auto simp: kv al)
qed

lemma treps_update_leaf:
  "treps t h al kvs \<Longrightarrow> \<not> is_dict v \<Longrightarrow>
   treps t h (AList.update k (Leaf v) al) (AList.update k v kvs) \<and>
   fps h (AList.update k (Leaf v) al) (AList.update k v kvs) \<subseteq> fps h al kvs"
proof (induction kvs arbitrary: al)
  case Nil
  then show ?case by (simp add: trep_leaf)
next
  case (Cons kv kvs)
  obtain k' v' where kv: "kv = (k', v')" by (cases kv)
  from Cons.prems obtain a' al' where al: "al = (k', a') # al'"
    and p: "trep t h a' v'" "treps t h al' kvs" "fp h a' v' \<inter> fps h al' kvs = {}"
    by (auto simp: kv split: list.splits)
  show ?case
  proof (cases "k' = k")
    case True
    with p Cons.prems(2) show ?thesis by (auto simp: kv al trep_leaf)
  next
    case False
    from Cons.IH [OF p(2) Cons.prems(2)] p False show ?thesis
      by (auto simp: kv al)
  qed
qed

lemma disjoint_new:
  fixes A B C :: "nat set"
  shows "A \<subseteq> B \<union> {n..<m} \<Longrightarrow> B \<inter> C = {} \<Longrightarrow> C \<subseteq> {..<n} \<Longrightarrow> A \<inter> C = {}"
  by fastforce

lemma disjoint_new_sym:
  fixes A B C :: "nat set"
  shows "A \<subseteq> B \<union> {n..<m} \<Longrightarrow> C \<inter> B = {} \<Longrightarrow> C \<subseteq> {..<n} \<Longrightarrow> C \<inter> A = {}"
  by fastforce

lemma treps_update_child:
  assumes "treps t h al kvs"
    and "map_of al k = Some (Store c)" and "map_of kvs k = Some (YDict old)"
    and "length (stores h) \<le> length (stores h2)"
    and "\<forall>a < length (stores h). a \<notin> fp h (Store c) (YDict old) \<longrightarrow> stores h2 ! a = stores h ! a"
    and "trep t h2 (Store c) (YDict m)"
    and "fp h2 (Store c) (YDict m) \<subseteq>
           fp h (Store c) (YDict old) \<union> {length (stores h) ..< length (stores h2)}"
  shows "treps t h2 al (AList.update k (YDict m) kvs) \<and>
         fps h2 al (AList.update k (YDict m) kvs) \<subseteq>
           fps h al kvs \<union> {length (stores h) ..< length (stores h2)}"
  using assms(1-3)
proof (induction kvs arbitrary: al)
  case Nil
  then show ?case by simp
next
  case (Cons kv kvs)
  let ?new = "{length (stores h) ..< length (stores h2)}"
  let ?fc = "fp h (Store c) (YDict old)"
  obtain k' v' where kv: "kv = (k', v')" by (cases kv)
  from Cons.prems obtain a' al' where al: "al = (k', a') # al'"
    and p: "trep t h a' v'" "treps t h al' kvs" "fp h a' v' \<inter> fps h al' kvs = {}"
    by (auto simp: kv split: list.splits)
  have b_head: "fp h a' v' \<subseteq> {..<length (stores h)}" using p(1) by (rule fp_bound)
  have b_tail: "fps h al' kvs \<subseteq> {..<length (stores h)}" using p(2) by (rule fp_bound)
  show ?case
  proof (cases "k' = k")
    case True
    with Cons.prems have eq: "a' = Store c" "v' = YDict old" by (auto simp: kv al)
    have same: "\<forall>x \<in> fps h al' kvs. stores h2 ! x = stores h ! x"
      using assms(5) p(3) b_tail unfolding eq by (auto simp del: fp.simps)
    from trep_stable(2) [OF p(2) assms(4) same]
    have tl: "treps t h2 al' kvs" "fps h2 al' kvs = fps h al' kvs" by auto
    have "fp h2 (Store c) (YDict m) \<inter> fps h2 al' kvs = {}"
      unfolding tl(2) using assms(7) p(3) [unfolded eq] b_tail by (rule disjoint_new)
    with tl assms(6,7) True show ?thesis
      unfolding kv al eq by auto
  next
    case False
    with Cons.prems have l: "map_of al' k = Some (Store c)" "map_of kvs k = Some (YDict old)"
      by (auto simp: kv al)
    from treps_lookup [OF p(2) l(1)] l(2) have sub: "?fc \<subseteq> fps h al' kvs" by auto
    have same: "\<forall>x \<in> fp h a' v'. stores h2 ! x = stores h ! x"
      using assms(5) p(3) b_head sub by (auto simp del: fp.simps)
    from trep_stable(1) [OF p(1) assms(4) same]
    have hd: "trep t h2 a' v'" "fp h2 a' v' = fp h a' v'" by auto
    from Cons.IH [OF p(2) l]
    have tl: "treps t h2 al' (AList.update k (YDict m) kvs)"
      "fps h2 al' (AList.update k (YDict m) kvs) \<subseteq> fps h al' kvs \<union> ?new" by auto
    have "fp h2 a' v' \<inter> fps h2 al' (AList.update k (YDict m) kvs) = {}"
      unfolding hd(2) using tl(2) p(3) b_head by (rule disjoint_new_sym)
    with hd tl False show ?thesis
      unfolding kv al by auto
  qed
qed

text \<open>Steps compose.\<close>

lemma good_refl: "trep t h (Store s) (YDict cur) \<Longrightarrow> good t h s cur h cur"
  by (simp add: good_def del: trep.simps fp.simps)

lemma good_trans:
  assumes "good t h s cur h1 cur1" and "good t h1 s cur1 h2 cur2"
  shows "good t h s cur h2 cur2"
proof -
  let ?F = "fp h (Store s) (YDict cur)"
  let ?F1 = "fp h1 (Store s) (YDict cur1)"
  let ?F2 = "fp h2 (Store s) (YDict cur2)"
  from assms have l: "length (stores h) \<le> length (stores h1)"
      "length (stores h1) \<le> length (stores h2)"
    and f1: "?F1 \<subseteq> ?F \<union> {length (stores h) ..< length (stores h1)}"
    and f2: "?F2 \<subseteq> ?F1 \<union> {length (stores h1) ..< length (stores h2)}"
    and a1: "\<forall>a < length (stores h). a \<notin> ?F \<longrightarrow> stores h1 ! a = stores h ! a"
    and a2: "\<forall>a < length (stores h1). a \<notin> ?F1 \<longrightarrow> stores h2 ! a = stores h1 ! a"
    by (simp_all add: good_def del: trep.simps fp.simps)
  have "?F2 \<subseteq> ?F \<union> {length (stores h) ..< length (stores h2)}"
    using f1 f2 l by fastforce
  moreover have "\<forall>a < length (stores h). a \<notin> ?F \<longrightarrow> stores h2 ! a = stores h ! a"
  proof (intro allI impI)
    fix a assume a: "a < length (stores h)" "a \<notin> ?F"
    then have "a \<notin> ?F1" using f1 by fastforce
    with a a1 a2 l show "stores h2 ! a = stores h ! a" by simp
  qed
  ultimately show ?thesis
    using assms by (simp add: good_def del: trep.simps fp.simps)
qed

lemma trep_node:
  "trep t h (Store s) (YDict cur) =
     (s < length (stores h) \<and> config_tree (stores h ! s) = t \<and>
      s \<notin> fps h (attributes (stores h ! s)) cur \<and>
      treps t h (attributes (stores h ! s)) cur)"
  by simp

lemma fp_node: "fp h (Store s) (YDict cur) = insert s (fps h (attributes (stores h ! s)) cur)"
  by simp

text \<open>
  One entry of the incoming mapping, by what the node holds under its key: the store does
  what \<open>plain_merge_items\<close> does to the mapping the node stands for.
\<close>

lemma step_leaf:
  assumes "trep t h (Store s) (YDict cur)" and "\<not> locked (trees h ! t)" and "\<not> is_dict v"
  shows "setitem h s key (Leaf v) = (Inr (), set_attribute h s key (Leaf v)) \<and>
         good t h s cur (set_attribute h s key (Leaf v)) (AList.update key v cur)"
proof -
  let ?al = "attributes (stores h ! s)"
  let ?h1 = "set_attribute h s key (Leaf v)"
  let ?al1 = "AList.update key (Leaf v) ?al"
  let ?cur1 = "AList.update key v cur"
  from assms(1) have s: "s < length (stores h)" "config_tree (stores h ! s) = t"
    "s \<notin> fps h ?al cur" "treps t h ?al cur"
    by (simp_all add: trep_node)
  have unlocked: "\<not> get_locked h s"
    using assms(2) s(2) by (simp add: get_locked_def)
  from treps_update_leaf [OF s(4) assms(3), of key]
  have r: "treps t h ?al1 ?cur1" "fps h ?al1 ?cur1 \<subseteq> fps h ?al cur" by auto
  have same: "\<forall>c \<in> fps h ?al1 ?cur1. stores ?h1 ! c = stores h ! c"
  proof
    fix c assume "c \<in> fps h ?al1 ?cur1"
    with r(2) s(3) have "c \<noteq> s" by blast
    then show "stores ?h1 ! c = stores h ! c" by (simp add: stores_set_attribute_other)
  qed
  from trep_stable(2) [OF r(1) _ same]
  have r1: "treps t ?h1 ?al1 ?cur1" "fps ?h1 ?al1 ?cur1 = fps h ?al1 ?cur1" by auto
  have st: "stores ?h1 ! s = (stores h ! s)\<lparr>attributes := ?al1\<rparr>"
    using s(1) by (simp add: set_attribute_def)
  have "trep t ?h1 (Store s) (YDict ?cur1)"
    unfolding trep_node using s r r1 by (auto simp: st)
  moreover have "fp ?h1 (Store s) (YDict ?cur1) \<subseteq> fp h (Store s) (YDict cur)"
    unfolding fp_node using r r1 by (auto simp: st)
  moreover have "\<forall>a < length (stores h). a \<notin> fp h (Store s) (YDict cur) \<longrightarrow>
      stores ?h1 ! a = stores h ! a"
    unfolding fp_node by (simp add: stores_set_attribute_other)
  moreover have "trees ?h1 = trees h" by (simp add: set_attribute_def)
  ultimately have "good t h s cur ?h1 ?cur1"
    unfolding good_def by (auto simp del: trep.simps fp.simps)
  then show ?thesis using unlocked by (simp add: setitem_def)
qed

lemma update_fresh_map_of: "map_of al k = None \<Longrightarrow> AList.update k v al = al @ [(k, v)]"
  by (rule update_fresh) (simp add: map_of_eq_None_iff)

lemma step_absent:
  assumes "trep t h (Store s) (YDict cur)" and "\<not> locked (trees h ! t)"
    and "map_of cur key = None"
  shows "\<exists>h1. getitem h s key = (Inr (Store (length (stores h))), h1) \<and>
           trep t h1 (Store (length (stores h))) (YDict []) \<and> \<not> locked (trees h1 ! t) \<and>
           (\<forall>h2 m. good t h1 (length (stores h)) [] h2 m \<longrightarrow>
              good t h s cur h2 (AList.update key (YDict m) cur))"
proof -
  let ?al = "attributes (stores h ! s)"
  let ?n = "length (stores h)"
  from assms(1) have s: "s < ?n" "config_tree (stores h ! s) = t"
    "s \<notin> fps h ?al cur" "treps t h ?al cur"
    by (simp_all add: trep_node)
  have unlocked: "\<not> get_locked h s"
    using assms(2) s(2) by (simp add: get_locked_def)
  have absent: "map_of ?al key = None"
    using treps_map_of_None [OF s(4)] assms(3) by simp
  from getitem_creates [OF s(1) unlocked absent]
  obtain h1 where g: "getitem h s key = (Inr (Store ?n), h1)"
    and t1: "trees h1 = trees h" and l1: "length (stores h1) = Suc ?n"
    and o1: "\<forall>a < ?n. a \<noteq> s \<longrightarrow> stores h1 ! a = stores h ! a"
    and s1: "stores h1 ! s = (stores h ! s)\<lparr>attributes := AList.update key (Store ?n) ?al\<rparr>"
    and c1: "attributes (stores h1 ! ?n) = []"
    and ct1: "config_tree (stores h1 ! ?n) = config_tree (stores h ! s)"
    by blast
  have al1: "attributes (stores h1 ! s) = ?al @ [(key, Store ?n)]"
    by (simp add: s1 update_fresh_map_of [OF absent])
  have bound: "fps h ?al cur \<subseteq> {..<?n}" using s(4) by (rule fp_bound)
  have child: "trep t h1 (Store ?n) (YDict [])"
    by (simp add: l1 c1 ct1 s(2))
  have f0: "fp h1 (Store ?n) (YDict []) = {?n}"
    by (simp add: c1)
  have "good t h s cur h2 (AList.update key (YDict m) cur)"
    if G: "good t h1 ?n [] h2 m" for h2 m
  proof -
    let ?new = "{?n ..< length (stores h2)}"
    from G have t2: "trees h2 = trees h1" and l2: "length (stores h1) \<le> length (stores h2)"
      and tc: "trep t h2 (Store ?n) (YDict m)"
      and fc: "fp h2 (Store ?n) (YDict m) \<subseteq> insert ?n {length (stores h1) ..< length (stores h2)}"
      and a2: "\<forall>a < length (stores h1). a \<noteq> ?n \<longrightarrow> stores h2 ! a = stores h1 ! a"
      by (simp_all add: good_def f0 del: trep.simps fp.simps)
    have fc': "fp h2 (Store ?n) (YDict m) \<subseteq> ?new"
      using fc l1 l2 by auto
    have s2: "stores h2 ! s = stores h1 ! s"
      using a2 s(1) l1 by simp
    have al2: "attributes (stores h2 ! s) = ?al @ [(key, Store ?n)]"
      by (simp add: s2 al1)
    have ct2: "config_tree (stores h2 ! s) = t"
      by (simp add: s2 s1 s(2))
    have same: "\<forall>x \<in> fps h ?al cur. stores h2 ! x = stores h ! x"
    proof
      fix x assume x: "x \<in> fps h ?al cur"
      with bound s(3) have "x < ?n" "x \<noteq> s" by auto
      with o1 a2 l1 show "stores h2 ! x = stores h ! x" by simp
    qed
    have len: "?n \<le> length (stores h2)" using l1 l2 by simp
    from trep_stable(2) [OF s(4) len same]
    have old: "treps t h2 ?al cur" "fps h2 ?al cur = fps h ?al cur" by auto
    have disj: "fp h2 (Store ?n) (YDict m) \<inter> fps h2 ?al cur = {}"
      unfolding old(2) using fc' bound by fastforce
    from treps_append [OF old(1) tc disj, of key]
    have app: "treps t h2 (?al @ [(key, Store ?n)]) (cur @ [(key, YDict m)])"
      "fps h2 (?al @ [(key, Store ?n)]) (cur @ [(key, YDict m)]) =
         fps h ?al cur \<union> fp h2 (Store ?n) (YDict m)"
      by (simp_all add: old(2) del: fp.simps(1))
    have cur1: "AList.update key (YDict m) cur = cur @ [(key, YDict m)]"
      using assms(3) by (rule update_fresh_map_of)
    have notin: "s \<notin> fps h ?al cur \<union> fp h2 (Store ?n) (YDict m)"
      using s(1,3) fc' by auto
    have "trep t h2 (Store s) (YDict (cur @ [(key, YDict m)]))"
      unfolding trep_node al2 ct2 using app notin s(1) len
      by (simp del: fp.simps)
    moreover have "fp h2 (Store s) (YDict (cur @ [(key, YDict m)])) \<subseteq>
        fp h (Store s) (YDict cur) \<union> ?new"
      unfolding fp_node [of h2 s] fp_node [of h s] al2 app(2) using fc' by auto
    moreover have "\<forall>a < ?n. a \<notin> fp h (Store s) (YDict cur) \<longrightarrow> stores h2 ! a = stores h ! a"
      unfolding fp_node using o1 a2 l1 by simp
    ultimately show ?thesis
      unfolding good_def cur1 using t1 t2 len by (simp del: trep.simps fp.simps)
  qed
  with g child assms(2) t1 show ?thesis by (auto simp del: trep.simps)
qed

lemma step_present:
  assumes "trep t h (Store s) (YDict cur)"
    and "map_of cur key = Some (YDict old)"
  shows "\<exists>c. getitem h s key = (Inr (Store c), h) \<and> trep t h (Store c) (YDict old) \<and>
           (\<forall>h2 m. good t h c old h2 m \<longrightarrow>
              good t h s cur h2 (AList.update key (YDict m) cur))"
proof -
  let ?al = "attributes (stores h ! s)"
  let ?n = "length (stores h)"
  from assms(1) have s: "s < ?n" "config_tree (stores h ! s) = t"
    "s \<notin> fps h ?al cur" "treps t h ?al cur"
    by (simp_all add: trep_node)
  have "map_of ?al key \<noteq> None"
    using treps_map_of_None [OF s(4), of key] assms(2) by simp
  then obtain a where a: "map_of ?al key = Some a" by auto
  from treps_lookup [OF s(4) a] assms(2)
  have ta: "trep t h a (YDict old)" and fa: "fp h a (YDict old) \<subseteq> fps h ?al cur" by auto
  from ta obtain c where c: "a = Store c" by (cases a) auto
  let ?fc = "fp h (Store c) (YDict old)"
  have g: "getitem h s key = (Inr (Store c), h)"
    using a c by (simp add: getitem_def)
  have "good t h s cur h2 (AList.update key (YDict m) cur)"
    if G: "good t h c old h2 m" for h2 m
  proof -
    let ?new = "{?n ..< length (stores h2)}"
    from G have t2: "trees h2 = trees h" and l2: "?n \<le> length (stores h2)"
      and tc: "trep t h2 (Store c) (YDict m)"
      and fc: "fp h2 (Store c) (YDict m) \<subseteq> ?fc \<union> ?new"
      and a2: "\<forall>x < ?n. x \<notin> ?fc \<longrightarrow> stores h2 ! x = stores h ! x"
      by (simp_all add: good_def del: trep.simps fp.simps)
    have "s \<notin> ?fc" using fa s(3) c by blast
    then have s2: "stores h2 ! s = stores h ! s" using a2 s(1) by simp
    from treps_update_child [OF s(4) a [unfolded c] assms(2) l2 a2 tc fc]
    have r: "treps t h2 ?al (AList.update key (YDict m) cur)"
      "fps h2 ?al (AList.update key (YDict m) cur) \<subseteq> fps h ?al cur \<union> ?new" by auto
    have notin: "s \<notin> fps h2 ?al (AList.update key (YDict m) cur)"
      using r(2) s(1,3) by auto
    have "trep t h2 (Store s) (YDict (AList.update key (YDict m) cur))"
      unfolding trep_node using r(1) notin s(1,2) l2 by (simp add: s2)
    moreover have "fp h2 (Store s) (YDict (AList.update key (YDict m) cur)) \<subseteq>
        fp h (Store s) (YDict cur) \<union> ?new"
      unfolding fp_node using r(2) by (auto simp: s2)
    moreover have "\<forall>x < ?n. x \<notin> fp h (Store s) (YDict cur) \<longrightarrow> stores h2 ! x = stores h ! x"
    proof (intro allI impI)
      fix x assume "x < ?n" "x \<notin> fp h (Store s) (YDict cur)"
      then have "x < ?n" "x \<notin> ?fc" using fa c unfolding fp_node by auto
      with a2 show "stores h2 ! x = stores h ! x" by simp
    qed
    ultimately show ?thesis
      unfolding good_def using t2 l2 by (simp del: trep.simps fp.simps)
  qed
  with g ta c show ?thesis by (auto simp del: trep.simps)
qed

lemma step_conflict:
  assumes "trep t h (Store s) (YDict cur)"
    and "map_of cur key = Some x" and "\<not> is_dict x"
  shows "\<exists>y. getitem h s key = (Inr (Leaf y), h)"
proof -
  let ?al = "attributes (stores h ! s)"
  from assms(1) have s: "treps t h ?al cur" by (simp add: trep_node)
  have "map_of ?al key \<noteq> None"
    using treps_map_of_None [OF s, of key] assms(2) by simp
  then obtain a where a: "map_of ?al key = Some a" by auto
  from treps_lookup [OF s a] assms(2) have "trep t h a x" by auto
  with assms(3) have "a = Leaf x" by (simp add: trep_leaf)
  with a show ?thesis by (simp add: getitem_def)
qed

text \<open>The merge on the store refines the merge of plain mappings.\<close>

lemma refines_rest:
  assumes "good t h s cur h1 cur1" and "refines h1 s kvs" and "\<not> locked (trees h ! t)"
  shows "case plain_merge_items cur1 kvs of
           None \<Rightarrow> (\<exists>e h'. update_items h1 s kvs = (Inl e, h'))
         | Some cur' \<Rightarrow> (\<exists>h'. update_items h1 s kvs = (Inr (), h') \<and> good t h s cur h' cur')"
proof -
  from assms(1) have "trep t h1 (Store s) (YDict cur1)" "trees h1 = trees h"
    by (simp_all add: good_def del: trep.simps fp.simps)
  with assms(2,3) have
    "case plain_merge_items cur1 kvs of
       None \<Rightarrow> (\<exists>e h'. update_items h1 s kvs = (Inl e, h'))
     | Some cur' \<Rightarrow> (\<exists>h'. update_items h1 s kvs = (Inr (), h') \<and> good t h1 s cur1 h' cur')"
    unfolding refines_def by (auto simp del: trep.simps)
  then show ?thesis
    using good_trans [OF assms(1)] by (auto split: option.splits)
qed

lemma update_refines:
  "\<forall>kvs. d = YDict kvs \<longrightarrow> refines h self kvs"
  "refines h self kvs"
proof (induction h self d and h self kvs rule: update_dict_update_items.induct)
  case (7 h self)
  show ?case
    unfolding refines_def by (auto simp: good_refl simp del: trep.simps)
next
  case (8 h self key v kvs)
  show ?case
    unfolding refines_def
  proof (intro allI impI)
    fix t cur
    assume T: "trep t h (Store self) (YDict cur)" and U: "\<not> locked (trees h ! t)"
    let ?goal = "case plain_merge_items cur ((key, v) # kvs) of
        None \<Rightarrow> (\<exists>e h'. update_items h self ((key, v) # kvs) = (Inl e, h'))
      | Some cur' \<Rightarrow>
          (\<exists>h'. update_items h self ((key, v) # kvs) = (Inr (), h') \<and> good t h self cur h' cur')"
    show ?goal
    proof (cases "is_dict v")
      case False
      let ?h1 = "set_attribute h self key (Leaf v)"
      from step_leaf [OF T U False, of key]
      have s: "setitem h self key (Leaf v) = (Inr (), ?h1)"
        and G: "good t h self cur ?h1 (AList.update key v cur)" by auto
      have r: "refines ?h1 self kvs"
        using "8.IH"(3) [OF False s [symmetric] refl] .
      have eq: "update_items h self ((key, v) # kvs) = update_items ?h1 self kvs"
        using False s by simp
      have meq: "plain_merge_items cur ((key, v) # kvs) = plain_merge_items (AList.update key v cur) kvs"
        using False by simp
      show ?thesis
        unfolding eq meq by (rule refines_rest [OF G r U])
    next
      case True
      then obtain sub where v: "v = YDict sub" by (cases v) auto
      have child_case: ?goal
        if g: "getitem h self key = (Inr (Store c), h1)"
          and Tc: "trep t h1 (Store c) (YDict old)" and U1: "\<not> locked (trees h1 ! t)"
          and F: "\<forall>h2 m. good t h1 c old h2 m \<longrightarrow>
                    good t h self cur h2 (AList.update key (YDict m) cur)"
          and M: "plain_merge_items cur ((key, v) # kvs) =
                    (case plain_merge_items old sub of
                       None \<Rightarrow> None
                     | Some m \<Rightarrow> plain_merge_items (AList.update key (YDict m) cur) kvs)"
        for c h1 old
      proof -
        have "refines h1 c sub"
          using "8.IH"(1) [OF True g [symmetric] refl refl] v by simp
        with Tc U1 have inner:
          "case plain_merge_items old sub of
             None \<Rightarrow> (\<exists>e h'. update_items h1 c sub = (Inl e, h'))
           | Some m \<Rightarrow> (\<exists>h'. update_items h1 c sub = (Inr (), h') \<and> good t h1 c old h' m)"
          unfolding refines_def by (auto simp del: trep.simps)
        show ?thesis
        proof (cases "plain_merge_items old sub")
          case None
          with inner obtain e h' where "update_items h1 c sub = (Inl e, h')" by auto
          then have "update_items h self ((key, v) # kvs) = (Inl e, h')"
            using True g v by simp
          with None M show ?thesis by simp
        next
          case (Some m)
          with inner obtain h2 where u: "update_items h1 c sub = (Inr (), h2)"
            and G1: "good t h1 c old h2 m" by auto
          have ud: "update_dict h1 c v = (Inr (), h2)" using u v by simp
          have G: "good t h self cur h2 (AList.update key (YDict m) cur)"
            using F G1 by blast
          have r: "refines h2 self kvs"
            using "8.IH"(2) [OF True g [symmetric] refl refl ud [symmetric] refl] .
          have eq: "update_items h self ((key, v) # kvs) = update_items h2 self kvs"
            using True g ud by simp
          have meq: "plain_merge_items cur ((key, v) # kvs) =
              plain_merge_items (AList.update key (YDict m) cur) kvs"
            using M Some by simp
          show ?thesis
            unfolding eq meq by (rule refines_rest [OF G r U])
        qed
      qed
      show ?thesis
      proof (cases "map_of cur key")
        case None
        from step_absent [OF T U None]
        obtain h1 where "getitem h self key = (Inr (Store (length (stores h))), h1)"
          "trep t h1 (Store (length (stores h))) (YDict [])" "\<not> locked (trees h1 ! t)"
          "\<forall>h2 m. good t h1 (length (stores h)) [] h2 m \<longrightarrow>
             good t h self cur h2 (AList.update key (YDict m) cur)"
          by blast
        then show ?thesis
          by (rule child_case) (simp add: None v split: option.splits)
      next
        case (Some x)
        show ?thesis
        proof (cases "is_dict x")
          case True
          then obtain old where x: "x = YDict old" by (cases x) auto
          from step_present [OF T Some [unfolded x]]
          obtain c where p: "getitem h self key = (Inr (Store c), h)"
            "trep t h (Store c) (YDict old)"
            "\<forall>h2 m. good t h c old h2 m \<longrightarrow>
               good t h self cur h2 (AList.update key (YDict m) cur)"
            by blast
          show ?thesis
            by (rule child_case [OF p(1,2) U p(3)]) (simp add: Some x v split: option.splits)
        next
          case False
          from step_conflict [OF T Some False]
          obtain y where "getitem h self key = (Inr (Leaf y), h)" by blast
          moreover have "plain_merge_items cur ((key, v) # kvs) = None"
            using False Some v by (cases x) simp_all
          ultimately show ?thesis
            using True by simp
        qed
      qed
    qed
  qed
qed simp_all

text \<open>\<open>to_dict\<close> reads a representation back, given enough recursion depth.\<close>

lemma trep_to_dict:
  "trep t h a v \<Longrightarrow> wf_doc v \<Longrightarrow> depth v \<le> n \<Longrightarrow>
     (case a of Leaf x \<Rightarrow> x = v | Store c \<Rightarrow> (\<exists>sub. v = YDict sub \<and> to_dict n h c = Some sub))"
  "treps t h al kvs \<Longrightarrow> wf_items kvs \<Longrightarrow> depth_items kvs \<le> n \<Longrightarrow>
     fst ` set kvs \<inter> fst ` set out = {} \<Longrightarrow>
     to_dict_items (to_dict n h) al out = Some (out @ kvs)"
proof (induction t h a v and t h al kvs arbitrary: n and n out rule: trep_treps.induct)
  case (1 t h a kvs)
  then obtain c where a: "a = Store c" and r: "treps t h (attributes (stores h ! c)) kvs"
    by (auto split: attr.splits)
  from "1.prems" obtain m where n: "n = Suc m" and m: "depth_items kvs \<le> m"
    by (cases n) auto
  have "to_dict_items (to_dict m h) (attributes (stores h ! c)) [] = Some ([] @ kvs)"
    using a r "1.prems"(2) m by (intro "1.IH") auto
  then show ?case by (simp add: a n)
next
  case (8 t h al k v kvs)
  then obtain a al' where al: "al = (k, a) # al'" and ra: "trep t h a v"
    and rs: "treps t h al' kvs"
    by (auto split: list.splits)
  from "8.prems" have wf: "k \<notin> fst ` set kvs" "wf_doc v" "wf_items kvs"
    and d: "depth v \<le> n" "depth_items kvs \<le> n"
    and fresh: "k \<notin> fst ` set out" "fst ` set kvs \<inter> fst ` set out = {}"
    by auto
  have head: "case a of Leaf x \<Rightarrow> x = v | Store c \<Rightarrow> (\<exists>sub. v = YDict sub \<and> to_dict n h c = Some sub)"
    using "8.IH"(1) [of "(k, a)" al' n] al ra wf(2) d(1) by simp
  have tail: "to_dict_items (to_dict n h) al' (out @ [(k, v)]) = Some ((out @ [(k, v)]) @ kvs)"
    using "8.IH"(2) [of "(k, a)" al' n "out @ [(k, v)]"] al rs wf d fresh by auto
  show ?case
    using head tail fresh(1) by (cases a) (auto simp: al update_fresh)
qed (auto split: attr.splits)

text \<open>
  The plain merge keeps keys distinct, and merging a mapping with distinct keys into the
  empty mapping gives that mapping.
\<close>

lemma wf_items_update:
  "wf_items cur \<Longrightarrow> wf_doc v \<Longrightarrow> wf_items (AList.update k v cur)"
proof (induction cur)
  case Nil
  then show ?case by simp
next
  case (Cons kv cur)
  obtain k' v' where kv: "kv = (k', v')" by (cases kv)
  from Cons show ?case
    by (auto simp: kv AList.dom_update)
qed

lemma wf_items_lookup: "wf_items cur \<Longrightarrow> map_of cur k = Some v \<Longrightarrow> wf_doc v"
  by (induction cur) (auto split: if_splits)

lemma plain_merge_items_leaf:
  "\<not> is_dict v \<Longrightarrow> plain_merge_items cur ((k, v) # kvs) = plain_merge_items (AList.update k v cur) kvs"
  by simp

lemma plain_merge_items_absent:
  "is_dict v \<Longrightarrow> map_of cur k = None \<Longrightarrow>
   plain_merge_items cur ((k, v) # kvs) =
     (case plain_merge [] v of
        None \<Rightarrow> None
      | Some m \<Rightarrow> plain_merge_items (AList.update k (YDict m) cur) kvs)"
  by simp

lemma plain_merge_items_present:
  "is_dict v \<Longrightarrow> map_of cur k = Some (YDict old) \<Longrightarrow>
   plain_merge_items cur ((k, v) # kvs) =
     (case plain_merge old v of
        None \<Rightarrow> None
      | Some m \<Rightarrow> plain_merge_items (AList.update k (YDict m) cur) kvs)"
  by simp

lemma plain_merge_items_conflict:
  "is_dict v \<Longrightarrow> map_of cur k = Some x \<Longrightarrow> \<not> is_dict x \<Longrightarrow>
   plain_merge_items cur ((k, v) # kvs) = None"
  by (cases x) simp_all

lemma merge_wf:
  "wf_items cur \<Longrightarrow> plain_merge cur d = Some cur' \<Longrightarrow> wf_items cur'"
  "wf_items cur \<Longrightarrow> plain_merge_items cur kvs = Some cur' \<Longrightarrow> wf_items cur'"
proof (induction cur d and cur kvs arbitrary: cur' and cur' rule: plain_merge_plain_merge_items.induct)
  case (1 cur kvs)
  then show ?case by simp
next
  case (7 cur)
  then show ?case by simp
next
  case (8 cur key v kvs)
  note plain_merge_items.simps(2) [simp del]
  show ?case
  proof (cases "is_dict v")
    case False
    then have "wf_doc v" by (cases v) auto
    then have "wf_items (AList.update key v cur)"
      using "8.prems"(1) by (simp add: wf_items_update)
    moreover have "plain_merge_items (AList.update key v cur) kvs = Some cur'"
      using "8.prems"(2) by (simp add: plain_merge_items_leaf [OF False])
    ultimately show ?thesis by (rule "8.IH"(5) [OF False])
  next
    case True
    show ?thesis
    proof (cases "map_of cur key")
      case None
      with "8.prems"(2) obtain m where m: "plain_merge [] v = Some m"
        and r: "plain_merge_items (AList.update key (YDict m) cur) kvs = Some cur'"
        by (auto simp: plain_merge_items_absent [OF True None] split: option.splits)
      have "wf_items m" by (rule "8.IH"(1) [OF True None _ m]) simp
      then have "wf_items (AList.update key (YDict m) cur)"
        using "8.prems"(1) by (simp add: wf_items_update)
      then show ?thesis using r by (rule "8.IH"(2) [OF True None m])
    next
      case (Some x)
      show ?thesis
      proof (cases "is_dict x")
        case False
        with "8.prems"(2) show ?thesis
          by (simp add: plain_merge_items_conflict [OF True Some])
      next
        case xd: True
        then obtain old where x: "x = YDict old" by (cases x) auto
        from "8.prems"(2) obtain m where m: "plain_merge old v = Some m"
          and r: "plain_merge_items (AList.update key (YDict m) cur) kvs = Some cur'"
          by (auto simp: plain_merge_items_present [OF True Some [unfolded x]] split: option.splits)
        have "wf_items old"
          using wf_items_lookup [OF "8.prems"(1) Some] x by simp
        then have "wf_items m" using m by (rule "8.IH"(3) [OF True Some x])
        then have "wf_items (AList.update key (YDict m) cur)"
          using "8.prems"(1) by (simp add: wf_items_update)
        then show ?thesis using r by (rule "8.IH"(4) [OF True Some x m])
      qed
    qed
  qed
qed simp_all

lemma merge_fresh:
  "wf_doc d \<Longrightarrow> cur = [] \<Longrightarrow> \<forall>kvs. d = YDict kvs \<longrightarrow> plain_merge cur d = Some kvs"
  "wf_items kvs \<Longrightarrow> fst ` set kvs \<inter> fst ` set cur = {} \<Longrightarrow>
     plain_merge_items cur kvs = Some (cur @ kvs)"
proof (induction cur d and cur kvs rule: plain_merge_plain_merge_items.induct)
  case (1 cur kvs)
  then show ?case by simp
next
  case (7 cur)
  then show ?case by simp
next
  case (8 cur key v kvs)
  note plain_merge_items.simps(2) [simp del]
  from "8.prems" have wf: "key \<notin> fst ` set kvs" "wf_doc v" "wf_items kvs"
    and fresh: "key \<notin> fst ` set cur" "fst ` set kvs \<inter> fst ` set cur = {}"
    by auto
  have none: "map_of cur key = None" using fresh(1) by (simp add: map_of_eq_None_iff)
  have disj: "fst ` set kvs \<inter> fst ` set (cur @ [(key, x)]) = {}" for x :: yval
    using wf(1) fresh(2) by auto
  show ?case
  proof (cases "is_dict v")
    case False
    have "plain_merge_items (AList.update key v cur) kvs = Some (AList.update key v cur @ kvs)"
      using wf(3) disj [of v] fresh(1) by (intro "8.IH"(5) [OF False]) (simp_all add: update_fresh)
    then show ?thesis
      using fresh(1) by (simp add: plain_merge_items_leaf [OF False] update_fresh)
  next
    case True
    then obtain sub where v: "v = YDict sub" by (cases v) auto
    have m: "plain_merge [] v = Some sub"
      using "8.IH"(1) [OF True none wf(2) refl] v by simp
    have "plain_merge_items (AList.update key (YDict sub) cur) kvs =
        Some (AList.update key (YDict sub) cur @ kvs)"
      using wf(3) disj [of "YDict sub"] fresh(1)
      by (intro "8.IH"(2) [OF True none m]) (simp_all add: update_fresh)
    then show ?thesis
      unfolding plain_merge_items_absent [OF True none] m
      using fresh(1) by (simp add: update_fresh v)
  qed
qed simp_all

text \<open>Registrations at the root, one and then many.\<close>

lemma trep_same_stores:
  assumes "trep t h a v" and "stores h' = stores h"
  shows "trep t h' a v"
  using trep_stable(1) [OF assms(1), of h'] assms(2) by simp

lemma plain_merge_all_wf: "wf_items cur \<Longrightarrow> plain_merge_all cur ds = Some m \<Longrightarrow> wf_items m"
  by (induction ds arbitrary: cur) (auto split: option.splits dest: merge_wf(1))

lemma one_registration:
  assumes "trep t h (Store (configatron self)) (YDict cur)" and "t < length (trees h)"
  shows "case plain_merge cur d of
           None \<Rightarrow> (\<exists>e self' h'. register_parsed self h d None True False None = (Inl e, self', h'))
         | Some cur' \<Rightarrow>
             (\<exists>self' h'. register_parsed self h d None True False None = (Inr (), self', h') \<and>
                configatron self' = configatron self \<and>
                trep t h' (Store (configatron self)) (YDict cur') \<and>
                length (trees h') = length (trees h))"
proof -
  let ?r = "configatron self"
  let ?dir = "\<lparr>config = d, filepath = None, raw = True, optional = False, nested = None\<rparr>"
  let ?self1 = "self\<lparr>directives := directives self @ [?dir]\<rparr>"
  let ?h1 = "set_locked h ?r False"
  from assms(1) have ct: "config_tree (stores h ! ?r) = t" by (simp add: trep_node)
  have T1: "trep t ?h1 (Store ?r) (YDict cur)"
    using assms(1) by (rule trep_same_stores) (simp add: set_locked_def)
  have U1: "\<not> locked (trees ?h1 ! t)"
    using assms(2) by (simp add: set_locked_def ct)
  have l1: "length (trees ?h1) = length (trees h)"
    by (simp add: set_locked_def)
  have reg: "register_parsed self h d None True False None =
      (case update_dict ?h1 ?r d of
         (Inl e, h3) \<Rightarrow> (Inl e, ?self1, h3)
       | (Inr u, h3) \<Rightarrow> (Inr (), ?self1, set_locked h3 ?r True))"
    by (simp add: register_parsed_def mixin_config_def environment_missing_def
        select_choice_def Let_def split: prod.splits sum.splits)
  show ?thesis
  proof (cases "is_dict d")
    case False
    then have "plain_merge cur d = None" "\<exists>e. update_dict ?h1 ?r d = (Inl e, ?h1)"
      by (cases d; simp)+
    then show ?thesis by (auto simp: reg)
  next
    case True
    then obtain kvs where d: "d = YDict kvs" by (cases d) auto
    have "refines ?h1 ?r kvs" by (rule update_refines(2))
    with T1 U1 have inner:
      "case plain_merge_items cur kvs of
         None \<Rightarrow> (\<exists>e h'. update_items ?h1 ?r kvs = (Inl e, h'))
       | Some cur' \<Rightarrow> (\<exists>h'. update_items ?h1 ?r kvs = (Inr (), h') \<and> good t ?h1 ?r cur h' cur')"
      unfolding refines_def by (auto simp del: trep.simps)
    show ?thesis
    proof (cases "plain_merge_items cur kvs")
      case None
      with inner show ?thesis by (auto simp: reg [unfolded d] d)
    next
      case (Some cur')
      with inner obtain h2 where u: "update_items ?h1 ?r kvs = (Inr (), h2)"
        and G: "good t ?h1 ?r cur h2 cur'" by auto
      from G have "trep t h2 (Store ?r) (YDict cur')" "trees h2 = trees ?h1"
        by (simp_all add: good_def del: trep.simps fp.simps)
      then have "trep t (set_locked h2 ?r True) (Store ?r) (YDict cur')"
        "length (trees (set_locked h2 ?r True)) = length (trees h)"
        using l1 by (auto intro: trep_same_stores simp: set_locked_def simp del: trep.simps)
      with u Some show ?thesis by (simp add: reg [unfolded d] d del: trep.simps)
    qed
  qed
qed

lemma all_registrations:
  assumes "trep t h (Store (configatron self)) (YDict cur)" and "t < length (trees h)"
  shows "case plain_merge_all cur ds of
           None \<Rightarrow> (\<exists>e self' h'. register_raw_all self h ds = (Inl e, self', h'))
         | Some m \<Rightarrow>
             (\<exists>self' h'. register_raw_all self h ds = (Inr (), self', h') \<and>
                trep t h' (Store (configatron self)) (YDict m))"
  using assms
proof (induction ds arbitrary: self h cur)
  case Nil
  then show ?case by (simp del: trep.simps)
next
  case (Cons d ds)
  note one = one_registration [OF Cons.prems, of d]
  show ?case
  proof (cases "plain_merge cur d")
    case None
    with one show ?thesis by auto
  next
    case (Some cur')
    with one obtain self' h' where
      r: "register_parsed self h d None True False None = (Inr (), self', h')"
      and c: "configatron self' = configatron self"
      and T: "trep t h' (Store (configatron self)) (YDict cur')"
      and l: "length (trees h') = length (trees h)"
      by auto
    have l': "t < length (trees h')" using Cons.prems(2) l by simp
    have eq: "register_raw_all self h (d # ds) = register_raw_all self' h' ds"
      by (simp add: r)
    have meq: "plain_merge_all cur (d # ds) = plain_merge_all cur' ds"
      by (simp add: Some)
    show ?thesis
      unfolding eq meq by (rule Cons.IH [where self = self' and h = h' and cur = cur', unfolded c, OF T l'])
  qed
qed

text \<open>
  C9, as the claim states it, fails: a mapping registered in memory with \<^verbatim>\<open>raw=True\<close>
  under the mount path \<^verbatim>\<open>a\<close> is merged below the key \<^verbatim>\<open>a\<close>, and \<open>to_dict\<close> of
  the root is \<^verbatim>\<open>{a: {x: 1}}\<close>, not the input \<^verbatim>\<open>{x: 1}\<close>.
\<close>

theorem mounted_not_roundtrip_counterexample:
  "fst mounted_registered = Inr () \<and>
   to_dict 2 (snd (snd mounted_registered)) (configatron (fst (snd mounted_registered))) =
     Some [(''a'', YDict [(''x'', YInt 1)])] \<and>
   to_dict 2 (snd (snd mounted_registered)) (configatron (fst (snd mounted_registered))) \<noteq>
     Some [(''x'', YInt 1)]"
  by (simp add: mounted_registered_def dev_started_eq register_parsed_def mixin_config_def
      environment_missing_def select_choice_def set_locked_def getitem_def setitem_def
      get_locked_def set_attribute_def ConfigStore_init_def Let_def numeral_2_eq_2)

text \<open>
  C9, amended. In a configuration that has just been created, registering mappings in
  memory with \<^verbatim>\<open>raw=True\<close> and no mount path succeeds exactly when their plain merge
  exists, and then \<open>to_dict\<close> of the root, at any recursion depth greater than the nesting
  of the merged mapping, returns the merged mapping; for one mapping with distinct keys at
  every level (a Python dictionary) the merged mapping is the mapping itself.
\<close>

theorem raw_registrations_roundtrip:
  "(let started = Configuration_init fs h0;
        registered = register_raw_all (fst started) (snd started) ds
    in case plain_merge_all [] ds of
         None \<Rightarrow> (\<exists>e. fst registered = Inl e)
       | Some m \<Rightarrow>
           fst registered = Inr () \<and>
           (\<forall>fuel. depth_items m < fuel \<longrightarrow>
              to_dict fuel (snd (snd registered)) (configatron (fst started)) = Some m)) \<and>
   (wf_items kvs \<longrightarrow> plain_merge_all [] [YDict kvs] = Some kvs)"
proof
  let ?r = "length (stores h0)"
  let ?t = "length (trees h0)"
  let ?self = "\<lparr>directives = [], env = discover_env fs, configatron = ?r\<rparr>"
  let ?ha = "h0\<lparr>trees := trees h0 @ [\<lparr>locked = False\<rparr>],
             stores := stores h0 @ [\<lparr>config_tree = ?t, name = ''config'', path = [],
                                     attributes = [], extras = []\<rparr>]\<rparr>"
  let ?h = "set_locked ?ha ?r True"
  have init: "Configuration_init fs h0 = (?self, ?h)"
    by (simp add: Configuration_init_def ConfigStore_init_def ConfigTree_init_def Let_def)
  have T: "trep ?t ?h (Store (configatron ?self)) (YDict [])"
    by (simp add: set_locked_def)
  have l: "?t < length (trees ?h)"
    by (simp add: set_locked_def)
  note all = all_registrations [OF T l, of ds]
  show "let started = Configuration_init fs h0;
            registered = register_raw_all (fst started) (snd started) ds
        in case plain_merge_all [] ds of
             None \<Rightarrow> (\<exists>e. fst registered = Inl e)
           | Some m \<Rightarrow>
               fst registered = Inr () \<and>
               (\<forall>fuel. depth_items m < fuel \<longrightarrow>
                  to_dict fuel (snd (snd registered)) (configatron (fst started)) = Some m)"
  proof (cases "plain_merge_all [] ds")
    case None
    with all show ?thesis by (auto simp: init Let_def)
  next
    case (Some m)
    with all obtain self' h' where r: "register_raw_all ?self ?h ds = (Inr (), self', h')"
      and T': "trep ?t h' (Store ?r) (YDict m)"
      by auto
    have wf: "wf_items m" using plain_merge_all_wf [OF _ Some] by simp
    have "to_dict fuel h' ?r = Some m" if "depth_items m < fuel" for fuel
    proof -
      from that obtain n where fuel: "fuel = Suc n" and n: "depth_items m \<le> n"
        by (cases fuel) auto
      from T' have "treps ?t h' (attributes (stores h' ! ?r)) m" by (simp add: trep_node)
      from trep_to_dict(2) [OF this wf n, of "[]"] show ?thesis by (simp add: fuel)
    qed
    with r Some show ?thesis by (simp add: init Let_def)
  qed
next
  show "wf_items kvs \<longrightarrow> plain_merge_all [] [YDict kvs] = Some kvs"
    using merge_fresh(2) [of kvs "[]"] by simp
qed

theorem raw_registrations_roundtrip_witness:
  "plain_merge_all [] [YDict nested_example, YDict override_example] = Some merged_example \<and>
   depth_items merged_example < 2 \<and>
   fst (register_raw_all (fst dev_started) (snd dev_started)
          [YDict nested_example, YDict override_example]) = Inr () \<and>
   to_dict 2
     (snd (snd (register_raw_all (fst dev_started) (snd dev_started)
          [YDict nested_example, YDict override_example]))) 0 = Some merged_example \<and>
   wf_items nested_example \<and>
   plain_merge_all [] [YDict nested_example] = Some nested_example"
proof -
  let ?ds = "[YDict nested_example, YDict override_example]"
  have m: "plain_merge_all [] ?ds = Some merged_example"
    by (simp add: nested_example_def override_example_def merged_example_def)
  have d: "depth_items merged_example < 2"
    by (simp add: merged_example_def)
  have w: "wf_items nested_example"
    by (simp add: nested_example_def)
  have r: "configatron (fst dev_started) = 0"
    by (simp add: dev_started_eq)
  from raw_registrations_roundtrip [of dev_files empty_heap ?ds nested_example]
  have "fst (register_raw_all (fst dev_started) (snd dev_started) ?ds) = Inr () \<and>
        (\<forall>fuel. depth_items merged_example < fuel \<longrightarrow>
           to_dict fuel (snd (snd (register_raw_all (fst dev_started) (snd dev_started) ?ds))) 0 =
             Some merged_example) \<and>
        plain_merge_all [] [YDict nested_example] = Some nested_example"
    using m w r by (simp add: Let_def dev_started_def [symmetric])
  with m d w show ?thesis by simp
qed

end
